theory Spec2Isabelle
  imports Complex_Main "HOL-Library.Sublist"
begin

unbundle bit_operations_syntax

section \<open>Values of the host language\<close>

text \<open>
  A JavaScript number. Every finite double is a rational, and the builder only compares
  numbers (\<open>Math.max\<close>, \<open>isSafeInteger\<close>, truthiness) and never computes with them, so no
  rounding is involved. \<open>Math.max(0, -0)\<close> is \<open>+0\<close>, so the two zeros are not
  distinguished.
\<close>

datatype jsnum = NaN | PosInf | NegInf | Fin rat

text \<open>\<open>RawAlias = Symbol | string\<close>; the n-th symbol made by \<open>Symbol()\<close> is \<open>ASym n\<close>.\<close>

datatype RawAlias = AStr string | ASym nat

datatype jsval = JNull | JUndefined | JBool bool | JNum jsnum | JStr string | JSym nat

fun truthy :: "jsval \<Rightarrow> bool" where
  "truthy JNull = False"
| "truthy JUndefined = False"
| "truthy (JBool b) = b"
| "truthy (JNum NaN) = False"
| "truthy (JNum (Fin q)) = (q \<noteq> 0)"
| "truthy (JNum _) = True"
| "truthy (JStr s) = (s \<noteq> [])"
| "truthy (JSym _) = True"

fun aliasVal :: "RawAlias \<Rightarrow> jsval" where
  "aliasVal (AStr s) = JStr s"
| "aliasVal (ASym k) = JSym k"

text \<open>\<open>Math.max(0, x)\<close>: \<open>NaN\<close> if \<open>x\<close> is \<open>NaN\<close>, otherwise the larger of the two.\<close>

fun mathMax0 :: "jsnum \<Rightarrow> jsnum" where
  "mathMax0 NaN = NaN"
| "mathMax0 PosInf = PosInf"
| "mathMax0 NegInf = Fin 0"
| "mathMax0 (Fin q) = Fin (max 0 q)"

text \<open>
  \<open>lodash/isSafeInteger\<close>: a number that is an integer of absolute value at most
  \<open>2^53 - 1\<close>; \<open>null\<close> (a limit that was never set) is not one.
\<close>

fun isSafeInteger :: "jsnum option \<Rightarrow> bool" where
  "isSafeInteger (Some (Fin q)) = (of_int \<lfloor>q\<rfloor> = q \<and> \<bar>q\<bar> \<le> 9007199254740991)"
| "isSafeInteger _ = False"

fun isNegative :: "jsnum \<Rightarrow> bool" where
  "isNegative (Fin q) = (q < 0)"
| "isNegative NegInf = True"
| "isNegative _ = False"

section \<open>SQL fragments\<close>

text \<open>
  Modelled from the spec: the fragment-composition library (\<open>pg-sql2\<close>: \<open>sql.fragment\<close>,
  \<open>sql.join\<close>, \<open>sql.literal\<close>, \<open>sql.identifier\<close>) is not among the sources. The spec
  asks of it literal embedding, quoted identifiers and joining with a separator. A
  fragment is kept as the term of the calls that made it: a template is the list of its
  text pieces and embedded values in order, and a JavaScript value that is not a fragment
  (\<open>null\<close>, \<open>false\<close>, \<open>0\<close>, \<open>""\<close>) landing in a hole of a template is kept as
  \<open>EmbVal\<close>.
\<close>

datatype SQL =
    Fragment "piece list"
  | Join "SQL list" string
  | Literal jsval
  | Identifier "RawAlias list"
and piece = Txt string | Emb SQL | EmbVal jsval

type_synonym CursorValue = "jsval list"
type_synonym CursorComparator = "CursorValue \<Rightarrow> bool \<Rightarrow> SQL"

section \<open>Closures handed to the builder\<close>

text \<open>
  The builder stores two kinds of caller-supplied functions: pre-lock callbacks
  (\<open>() => void\<close>) and expression generators (\<open>Gen<SQL> | SQL\<close>). Both are closures over
  the builder. A callback is modelled as the list of builder calls it makes; a generator
  is a fragment, or a thunk that makes builder calls and returns a fragment, possibly
  built on \<open>getTableAlias()\<close>. \<open>SelectCursorAs\<close> and \<open>If\<close> are the guards the
  constructor's own callback and the callers' callbacks use.
\<close>

datatype cond = IsOrderUnique | HasSelectCursor

datatype 'a jsarg = Undefined | Null | Given 'a

datatype stmt =
    Lock string
  | BeforeLock string "stmt list"
  | SetCursorComparator CursorComparator
  | Select SQLGen RawAlias
  | SelectCursor SQLGen
  | From "SQLGen jsarg" "SQL jsarg"
  | Where SQLGen
  | WhereBound SQLGen jsval
  | SetOrderIsUnique
  | OrderBy SQLGen bool
  | Limit jsnum
  | Offset jsnum
  | Flip
  | SelectCursorAs RawAlias
  | If cond "stmt list" "stmt list"
and SQLGen =
    Val SQL
  | Gen "stmt list" SQL
  | GenAlias "stmt list" "SQL \<Rightarrow> SQL"

type_synonym callback = "stmt list"

section \<open>The builder's state\<close>

datatype lockval = LockedTrue | LockedAt string

record Data =
  d_cursorPrefix :: "string list"
  d_select :: "(SQLGen \<times> RawAlias) list"
  d_selectCursor :: "SQLGen option"
  d_from :: "(SQLGen \<times> SQL) option"
  d_join :: "SQLGen list"
  d_where :: "SQLGen list"
  d_whereBound_lower :: "SQLGen list"
  d_whereBound_upper :: "SQLGen list"
  d_orderBy :: "(SQLGen \<times> bool) list"
  d_orderIsUnique :: bool
  d_limit :: "jsnum option"
  d_offset :: "jsnum option"
  d_flip :: bool
  d_beforeLock :: "string \<Rightarrow> callback list"
  d_cursorComparator :: "CursorComparator option"

record CompiledData =
  c_cursorPrefix :: "string list"
  c_select :: "(SQL \<times> RawAlias) list"
  c_selectCursor :: "SQL option"
  c_from :: "(SQL \<times> SQL) option"
  c_join :: "SQL list"
  c_where :: "SQL list"
  c_whereBound_lower :: "SQL list"
  c_whereBound_upper :: "SQL list"
  c_orderBy :: "(SQL \<times> bool) list"
  c_orderIsUnique :: bool
  c_limit :: "jsnum option"
  c_offset :: "jsnum option"
  c_flip :: bool
  c_cursorComparator :: "CursorComparator option"

text \<open>
  What happened to the builder, in order: \<open>Ran t i\<close> when \<open>lock(t)\<close> calls the \<open>i\<close>-th
  callback registered for \<open>t\<close>, \<open>Locked t\<close> when \<open>lock(t)\<close> assigns \<open>locks[t]\<close>. The
  history is not a field of the source class; no operation reads it.
\<close>

datatype event = Ran string nat | Locked string

text \<open>
  \<open>isDev\<close> is the module constant of that name and \<open>symbols\<close> counts the calls of
  \<open>Symbol()\<close> so far; \<open>d_beforeLock\<close> maps a missing key to the empty list, which is how
  every reader of it treats a missing key.
\<close>

record QueryBuilder =
  locks :: "string \<rightharpoonup> lockval"
  finalized :: bool
  data :: Data
  compiledData :: CompiledData
  history :: "event list"
  isDev :: bool
  symbols :: nat

datatype error =
    AlreadyLocked string lockval
  | NoFromTableSource
  | NoFromAlias
  | IsLowerNotBoolean
  | NoFromTableSupplied
  | NoCursorComparator
  | UnexpectedLock string
  | OutOfFuel

text \<open>
  A call returns its value, or throws: the error together with the builder as the throw
  leaves it (nothing is rolled back in JavaScript).
\<close>

type_synonym 'a result = "(error \<times> QueryBuilder) + 'a"

definition andThen :: "'a result \<Rightarrow> ('a \<Rightarrow> 'b result) \<Rightarrow> 'b result" where
  "andThen m f = (case m of Inl e \<Rightarrow> Inl e | Inr x \<Rightarrow> f x)"

definition throw :: "error \<Rightarrow> QueryBuilder \<Rightarrow> 'a result" where
  "throw e qb = Inl (e, qb)"

section \<open>Mutators that do not lock\<close>

definition checkLock :: "string \<Rightarrow> QueryBuilder \<Rightarrow> unit result" where
  "checkLock type qb =
     (case locks qb type of
        Some l \<Rightarrow> throw (AlreadyLocked type l) qb
      | None \<Rightarrow> Inr ())"

definition pushBeforeLock :: "string \<Rightarrow> callback \<Rightarrow> QueryBuilder \<Rightarrow> QueryBuilder" where
  "pushBeforeLock field fn qb =
     qb\<lparr>data := (data qb)\<lparr>d_beforeLock :=
       (d_beforeLock (data qb))(field := d_beforeLock (data qb) field @ [fn])\<rparr>\<rparr>"

definition beforeLock :: "string \<Rightarrow> callback \<Rightarrow> QueryBuilder \<Rightarrow> QueryBuilder result" where
  "beforeLock field fn qb =
     andThen (checkLock field qb) (\<lambda>_. Inr (pushBeforeLock field fn qb))"

definition select :: "SQLGen \<Rightarrow> RawAlias \<Rightarrow> QueryBuilder \<Rightarrow> QueryBuilder result" where
  "select exprGen alias qb =
     andThen (checkLock ''select'' qb) (\<lambda>_.
       Inr (qb\<lparr>data := (data qb)\<lparr>d_select := d_select (data qb) @ [(exprGen, alias)]\<rparr>\<rparr>))"

definition selectCursor :: "SQLGen \<Rightarrow> QueryBuilder \<Rightarrow> QueryBuilder result" where
  "selectCursor exprGen qb =
     andThen (checkLock ''selectCursor'' qb) (\<lambda>_.
       Inr (qb\<lparr>data := (data qb)\<lparr>d_selectCursor := Some exprGen\<rparr>\<rparr>))"

definition where' :: "SQLGen \<Rightarrow> QueryBuilder \<Rightarrow> QueryBuilder result" where
  "where' exprGen qb =
     andThen (checkLock ''where'' qb) (\<lambda>_.
       Inr (qb\<lparr>data := (data qb)\<lparr>d_where := d_where (data qb) @ [exprGen]\<rparr>\<rparr>))"

definition whereBound :: "SQLGen \<Rightarrow> jsval \<Rightarrow> QueryBuilder \<Rightarrow> QueryBuilder result" where
  "whereBound exprGen isLower qb =
     (case isLower of
        JBool b \<Rightarrow>
          andThen (checkLock ''whereBound'' qb) (\<lambda>_.
            Inr (if b
              then qb\<lparr>data := (data qb)\<lparr>d_whereBound_lower :=
                     d_whereBound_lower (data qb) @ [exprGen]\<rparr>\<rparr>
              else qb\<lparr>data := (data qb)\<lparr>d_whereBound_upper :=
                     d_whereBound_upper (data qb) @ [exprGen]\<rparr>\<rparr>))
      | _ \<Rightarrow> throw IsLowerNotBoolean qb)"

definition setOrderIsUnique :: "QueryBuilder \<Rightarrow> QueryBuilder result" where
  "setOrderIsUnique qb = Inr (qb\<lparr>data := (data qb)\<lparr>d_orderIsUnique := True\<rparr>\<rparr>)"

definition orderBy :: "SQLGen \<Rightarrow> bool \<Rightarrow> QueryBuilder \<Rightarrow> QueryBuilder result" where
  "orderBy exprGen ascending qb =
     andThen (checkLock ''orderBy'' qb) (\<lambda>_.
       Inr (qb\<lparr>data := (data qb)\<lparr>d_orderBy := d_orderBy (data qb) @ [(exprGen, ascending)]\<rparr>\<rparr>))"

section \<open>Mutators and getters that lock\<close>

text \<open>
  \<open>lock\<close> calls the callbacks, which call the builder, which calls \<open>lock\<close>. The methods
  below take \<open>this.lock\<close> as the argument \<open>lk\<close>; the knot is tied in \<open>lock\<close>, where
  \<open>lk\<close> is \<open>lock\<close> with one nested call less to spend.
\<close>

type_synonym lockfn = "string \<Rightarrow> QueryBuilder \<Rightarrow> QueryBuilder result"

definition setCursorComparator :: "lockfn \<Rightarrow> CursorComparator \<Rightarrow> QueryBuilder \<Rightarrow> QueryBuilder result" where
  "setCursorComparator lk fn qb =
     andThen (checkLock ''cursorComparator'' qb) (\<lambda>_.
       lk ''cursorComparator'' (qb\<lparr>data := (data qb)\<lparr>d_cursorComparator := Some fn\<rparr>\<rparr>))"

text \<open>
  \<open>from(expr, alias = sql.identifier(Symbol()))\<close>: the default is taken when the alias is
  left out (\<open>undefined\<close>), not when it is \<open>null\<close>.
\<close>

definition from' :: "lockfn \<Rightarrow> SQLGen jsarg \<Rightarrow> SQL jsarg \<Rightarrow> QueryBuilder \<Rightarrow> QueryBuilder result" where
  "from' lk expr alias qb =
     (let qb0 = (case alias of Undefined \<Rightarrow> qb\<lparr>symbols := Suc (symbols qb)\<rparr> | _ \<Rightarrow> qb);
          alias0 = (case alias of Undefined \<Rightarrow> Given (Identifier [ASym (symbols qb)]) | _ \<Rightarrow> alias)
      in andThen (checkLock ''from'' qb0) (\<lambda>_.
           case expr of
             Given e \<Rightarrow>
               (case alias0 of
                  Given a \<Rightarrow> lk ''from'' (qb0\<lparr>data := (data qb0)\<lparr>d_from := Some (e, a)\<rparr>\<rparr>)
                | _ \<Rightarrow> throw NoFromAlias qb0)
           | _ \<Rightarrow> throw NoFromTableSource qb0))"

definition limit :: "lockfn \<Rightarrow> jsnum \<Rightarrow> QueryBuilder \<Rightarrow> QueryBuilder result" where
  "limit lk l qb =
     andThen (checkLock ''limit'' qb) (\<lambda>_.
       lk ''limit'' (qb\<lparr>data := (data qb)\<lparr>d_limit := Some (mathMax0 l)\<rparr>\<rparr>))"

definition offset :: "lockfn \<Rightarrow> jsnum \<Rightarrow> QueryBuilder \<Rightarrow> QueryBuilder result" where
  "offset lk off qb =
     andThen (checkLock ''offset'' qb) (\<lambda>_.
       lk ''offset'' (qb\<lparr>data := (data qb)\<lparr>d_offset := Some (mathMax0 off)\<rparr>\<rparr>))"

definition flip :: "lockfn \<Rightarrow> QueryBuilder \<Rightarrow> QueryBuilder result" where
  "flip lk qb =
     andThen (checkLock ''flip'' qb) (\<lambda>_.
       lk ''flip'' (qb\<lparr>data := (data qb)\<lparr>d_flip := True\<rparr>\<rparr>))"

definition isOrderUnique :: "lockfn \<Rightarrow> QueryBuilder \<Rightarrow> (bool \<times> QueryBuilder) result" where
  "isOrderUnique lk qb =
     andThen (lk ''orderIsUnique'' qb) (\<lambda>qb'. Inr (c_orderIsUnique (compiledData qb'), qb'))"

definition getTableAlias :: "lockfn \<Rightarrow> QueryBuilder \<Rightarrow> (SQL \<times> QueryBuilder) result" where
  "getTableAlias lk qb =
     andThen (lk ''from'' qb) (\<lambda>qb'.
       case c_from (compiledData qb') of
         None \<Rightarrow> throw NoFromTableSupplied qb'
       | Some f \<Rightarrow> Inr (snd f, qb'))"

definition getSelectCursor :: "lockfn \<Rightarrow> QueryBuilder \<Rightarrow> (SQL option \<times> QueryBuilder) result" where
  "getSelectCursor lk qb =
     andThen (lk ''selectCursor'' qb) (\<lambda>qb'. Inr (c_selectCursor (compiledData qb'), qb'))"

text \<open>\<open>this.compiledData.offset || 0\<close>: \<open>0\<close> for an unset offset, for \<open>0\<close> and for \<open>NaN\<close>.\<close>

definition getOffset :: "lockfn \<Rightarrow> QueryBuilder \<Rightarrow> (jsnum \<times> QueryBuilder) result" where
  "getOffset lk qb =
     andThen (lk ''offset'' qb) (\<lambda>qb'.
       Inr (case c_offset (compiledData qb') of
              None \<Rightarrow> Fin 0
            | Some x \<Rightarrow> if truthy (JNum x) then x else Fin 0, qb'))"

definition getOrderByExpressionsAndDirections ::
    "lockfn \<Rightarrow> QueryBuilder \<Rightarrow> ((SQL \<times> bool) list \<times> QueryBuilder) result" where
  "getOrderByExpressionsAndDirections lk qb =
     andThen (lk ''orderBy'' qb) (\<lambda>qb'. Inr (c_orderBy (compiledData qb'), qb'))"

section \<open>Running closures\<close>

definition evalCond :: "lockfn \<Rightarrow> cond \<Rightarrow> QueryBuilder \<Rightarrow> (bool \<times> QueryBuilder) result" where
  "evalCond lk c qb =
     (case c of
        IsOrderUnique \<Rightarrow> isOrderUnique lk qb
      | HasSelectCursor \<Rightarrow>
          andThen (getSelectCursor lk qb) (\<lambda>(s, qb'). Inr (s \<noteq> None, qb')))"

text \<open>
  A callback runs its calls in order; the first one that throws ends it. \<open>SelectCursorAs\<close>
  is the constructor's
  \<open>if (this.compiledData.selectCursor) this.select(this.compiledData.selectCursor, alias)\<close>.
\<close>

fun execStmt :: "lockfn \<Rightarrow> stmt \<Rightarrow> QueryBuilder \<Rightarrow> QueryBuilder result"
and call :: "lockfn \<Rightarrow> stmt list \<Rightarrow> QueryBuilder \<Rightarrow> QueryBuilder result" where
  "execStmt lk (Lock type) qb = lk type qb"
| "execStmt lk (BeforeLock field fn) qb = beforeLock field fn qb"
| "execStmt lk (SetCursorComparator fn) qb = setCursorComparator lk fn qb"
| "execStmt lk (Select exprGen alias) qb = select exprGen alias qb"
| "execStmt lk (SelectCursor exprGen) qb = selectCursor exprGen qb"
| "execStmt lk (From expr alias) qb = from' lk expr alias qb"
| "execStmt lk (Where exprGen) qb = where' exprGen qb"
| "execStmt lk (WhereBound exprGen isLower) qb = whereBound exprGen isLower qb"
| "execStmt lk SetOrderIsUnique qb = setOrderIsUnique qb"
| "execStmt lk (OrderBy exprGen ascending) qb = orderBy exprGen ascending qb"
| "execStmt lk (Limit l) qb = limit lk l qb"
| "execStmt lk (Offset off) qb = offset lk off qb"
| "execStmt lk Flip qb = flip lk qb"
| "execStmt lk (SelectCursorAs alias) qb =
     (case c_selectCursor (compiledData qb) of
        Some s \<Rightarrow> select (Val s) alias qb
      | None \<Rightarrow> Inr qb)"
| "execStmt lk (If c thenBranch elseBranch) qb =
     andThen (evalCond lk c qb) (\<lambda>(v, qb').
       if v then call lk thenBranch qb' else call lk elseBranch qb')"
| "call lk [] qb = Inr qb"
| "call lk (s # ss) qb = andThen (execStmt lk s qb) (\<lambda>qb'. call lk ss qb')"

definition callIfNecessary :: "lockfn \<Rightarrow> SQLGen \<Rightarrow> QueryBuilder \<Rightarrow> (SQL \<times> QueryBuilder) result" where
  "callIfNecessary lk o' qb =
     (case o' of
        Val s \<Rightarrow> Inr (s, qb)
      | Gen body s \<Rightarrow> andThen (call lk body qb) (\<lambda>qb'. Inr (s, qb'))
      | GenAlias body f \<Rightarrow>
          andThen (call lk body qb) (\<lambda>qb'.
            andThen (getTableAlias lk qb') (\<lambda>(a, qb''). Inr (f a, qb''))))"

fun callIfNecessaryArray ::
    "lockfn \<Rightarrow> SQLGen list \<Rightarrow> QueryBuilder \<Rightarrow> (SQL list \<times> QueryBuilder) result" where
  "callIfNecessaryArray lk [] qb = Inr ([], qb)"
| "callIfNecessaryArray lk (g # gs) qb =
     andThen (callIfNecessary lk g qb) (\<lambda>(s, qb').
       andThen (callIfNecessaryArray lk gs qb') (\<lambda>(ss, qb''). Inr (s # ss, qb'')))"

text \<open>\<open>xs.map(([a, b]) => [callIfNecessary(a), b])\<close>, as \<open>lock\<close> does for select and orderBy.\<close>

fun callIfNecessaryPairs ::
    "lockfn \<Rightarrow> (SQLGen \<times> 'b) list \<Rightarrow> QueryBuilder \<Rightarrow> ((SQL \<times> 'b) list \<times> QueryBuilder) result" where
  "callIfNecessaryPairs lk [] qb = Inr ([], qb)"
| "callIfNecessaryPairs lk ((a, b) # xs) qb =
     andThen (callIfNecessary lk a qb) (\<lambda>(s, qb').
       andThen (callIfNecessaryPairs lk xs qb') (\<lambda>(ys, qb''). Inr ((s, b) # ys, qb'')))"

section \<open>lock\<close>

definition setLock :: "string \<Rightarrow> QueryBuilder \<Rightarrow> QueryBuilder" where
  "setLock type qb =
     qb\<lparr>locks := (locks qb)(type \<mapsto>
            (if isDev qb then LockedAt ''Error: Initally locked here'' else LockedTrue)),
        history := history qb @ [Locked type]\<rparr>"

text \<open>
  \<open>for (const fn of this.data.beforeLock[type] || []) fn()\<close>. The iterator reads the
  array as it is at each step, so a callback pushed while the loop runs is run too. The
  loop is given a budget \<open>k\<close> of iterations.
\<close>

primrec runCallbacks :: "lockfn \<Rightarrow> nat \<Rightarrow> string \<Rightarrow> nat \<Rightarrow> QueryBuilder \<Rightarrow> QueryBuilder result" where
  "runCallbacks lk 0 type i qb =
     (if i < length (d_beforeLock (data qb) type) then throw OutOfFuel qb else Inr qb)"
| "runCallbacks lk (Suc k) type i qb =
     (if i < length (d_beforeLock (data qb) type)
      then andThen (call lk (d_beforeLock (data qb) type ! i) (qb\<lparr>history := history qb @ [Ran type i]\<rparr>))
             (\<lambda>qb'. runCallbacks lk k type (Suc i) qb')
      else Inr qb)"

text \<open>The part of \<open>lock\<close> after \<open>this.locks[type] = ...\<close>: the chain of \<open>if (type === ...)\<close>.\<close>

definition compile :: "lockfn \<Rightarrow> string \<Rightarrow> QueryBuilder \<Rightarrow> QueryBuilder result" where
  "compile lk type qb =
     (if type = ''cursorComparator'' then Inr qb
      else if type = ''whereBound'' then
        andThen (callIfNecessaryArray lk (d_whereBound_lower (data qb)) qb) (\<lambda>(lower, qb1).
          let qb2 = qb1\<lparr>compiledData := (compiledData qb1)\<lparr>c_whereBound_lower := lower\<rparr>\<rparr> in
          andThen (callIfNecessaryArray lk (d_whereBound_upper (data qb2)) qb2) (\<lambda>(upper, qb3).
            Inr (qb3\<lparr>compiledData := (compiledData qb3)\<lparr>c_whereBound_upper := upper\<rparr>\<rparr>)))
      else if type = ''select'' then
        andThen (callIfNecessaryPairs lk (d_select (data qb)) qb) (\<lambda>(xs, qb1).
          Inr (qb1\<lparr>compiledData := (compiledData qb1)\<lparr>c_select := xs\<rparr>\<rparr>))
      else if type = ''orderBy'' then
        andThen (callIfNecessaryPairs lk (d_orderBy (data qb)) qb) (\<lambda>(xs, qb1).
          Inr (qb1\<lparr>compiledData := (compiledData qb1)\<lparr>c_orderBy := xs\<rparr>\<rparr>))
      else if type = ''from'' then
        (case d_from (data qb) of
           Some f \<Rightarrow>
             andThen (callIfNecessary lk (fst f) qb) (\<lambda>(s, qb1).
               Inr (qb1\<lparr>compiledData := (compiledData qb1)\<lparr>c_from := Some (s, snd f)\<rparr>\<rparr>))
         | None \<Rightarrow> Inr qb)
      else if type = ''join'' then
        andThen (callIfNecessaryArray lk (d_join (data qb)) qb) (\<lambda>(xs, qb1).
          Inr (qb1\<lparr>compiledData := (compiledData qb1)\<lparr>c_join := xs\<rparr>\<rparr>))
      else if type = ''where'' then
        andThen (callIfNecessaryArray lk (d_where (data qb)) qb) (\<lambda>(xs, qb1).
          Inr (qb1\<lparr>compiledData := (compiledData qb1)\<lparr>c_where := xs\<rparr>\<rparr>))
      else if type = ''selectCursor'' then
        (case d_selectCursor (data qb) of
           Some g \<Rightarrow>
             andThen (callIfNecessary lk g qb) (\<lambda>(s, qb1).
               Inr (qb1\<lparr>compiledData := (compiledData qb1)\<lparr>c_selectCursor := Some s\<rparr>\<rparr>))
         | None \<Rightarrow> Inr (qb\<lparr>compiledData := (compiledData qb)\<lparr>c_selectCursor := None\<rparr>\<rparr>))
      else if type = ''cursorPrefix'' then
        Inr (qb\<lparr>compiledData := (compiledData qb)\<lparr>c_cursorPrefix := d_cursorPrefix (data qb)\<rparr>\<rparr>)
      else if type = ''orderIsUnique'' then
        Inr (qb\<lparr>compiledData := (compiledData qb)\<lparr>c_orderIsUnique := d_orderIsUnique (data qb)\<rparr>\<rparr>)
      else if type = ''limit'' then
        Inr (qb\<lparr>compiledData := (compiledData qb)\<lparr>c_limit := d_limit (data qb)\<rparr>\<rparr>)
      else if type = ''offset'' then
        Inr (qb\<lparr>compiledData := (compiledData qb)\<lparr>c_offset := d_offset (data qb)\<rparr>\<rparr>)
      else if type = ''flip'' then
        Inr (qb\<lparr>compiledData := (compiledData qb)\<lparr>c_flip := d_flip (data qb)\<rparr>\<rparr>)
      else throw (UnexpectedLock type) qb)"

text \<open>
  \<open>lock n\<close> is \<open>this.lock\<close> with \<open>n\<close> nested calls of \<open>lock\<close> left to spend; with none
  left the call fails with \<open>OutOfFuel\<close>, where JavaScript would overflow its stack.
\<close>

primrec lock :: "nat \<Rightarrow> string \<Rightarrow> QueryBuilder \<Rightarrow> QueryBuilder result" where
  "lock 0 type qb = throw OutOfFuel qb"
| "lock (Suc n) type qb =
     (if locks qb type \<noteq> None then Inr qb
      else andThen (runCallbacks (lock n) n type 0 qb) (\<lambda>qb1.
             compile (lock n) type (setLock type qb1)))"

definition finalize' :: "QueryBuilder \<Rightarrow> QueryBuilder" where
  "finalize' qb = qb\<lparr>finalized := True\<rparr>"

definition lockEverything :: "lockfn \<Rightarrow> QueryBuilder \<Rightarrow> QueryBuilder result" where
  "lockEverything lk qb =
     andThen (lk ''from'' (finalize' qb)) (\<lambda>qb.
     andThen (lk ''flip'' qb) (\<lambda>qb.
     andThen (lk ''join'' qb) (\<lambda>qb.
     andThen (lk ''offset'' qb) (\<lambda>qb.
     andThen (lk ''limit'' qb) (\<lambda>qb.
     andThen (lk ''orderBy'' qb) (\<lambda>qb.
     andThen (lk ''cursorComparator'' qb) (\<lambda>qb.
     andThen (lk ''where'' qb) (\<lambda>qb.
     andThen (lk ''selectCursor'' qb) (\<lambda>qb.
     lk ''select'' qb)))))))))"

section \<open>The constructor\<close>

definition emptyData :: Data where
  "emptyData =
     \<lparr>d_cursorPrefix = [''natural''], d_select = [], d_selectCursor = None, d_from = None,
      d_join = [], d_where = [], d_whereBound_lower = [], d_whereBound_upper = [],
      d_orderBy = [], d_orderIsUnique = False, d_limit = None, d_offset = None,
      d_flip = False, d_beforeLock = (\<lambda>_. []), d_cursorComparator = None\<rparr>"

definition emptyCompiledData :: CompiledData where
  "emptyCompiledData =
     \<lparr>c_cursorPrefix = [''natural''], c_select = [], c_selectCursor = None, c_from = None,
      c_join = [], c_where = [], c_whereBound_lower = [], c_whereBound_upper = [],
      c_orderBy = [], c_orderIsUnique = False, c_limit = None, c_offset = None,
      c_flip = False, c_cursorComparator = None\<rparr>"

definition selectCallback :: callback where
  "selectCallback = [Lock ''selectCursor'', SelectCursorAs (AStr ''__cursor'')]"

definition whereCallback :: callback where
  "whereCallback = [Lock ''whereBound'']"

text \<open>
  \<open>new QueryBuilder()\<close> in a process whose \<open>isDev\<close> is \<open>dev\<close>. Nothing is locked yet, so
  the two \<open>beforeLock\<close> calls of the constructor pass their \<open>checkLock\<close>.
\<close>

definition newQueryBuilder :: "bool \<Rightarrow> QueryBuilder" where
  "newQueryBuilder dev =
     pushBeforeLock ''where'' whereCallback
       (pushBeforeLock ''select'' selectCallback
          \<lparr>locks = Map.empty, finalized = False, data = emptyData,
           compiledData = emptyCompiledData, history = [], isDev = dev, symbols = 0\<rparr>)"

section \<open>Reading the compiled state\<close>

definition cursorCondition ::
    "lockfn \<Rightarrow> CursorValue \<Rightarrow> bool \<Rightarrow> QueryBuilder \<Rightarrow> (SQL \<times> QueryBuilder) result" where
  "cursorCondition lk cursorValue isAfter qb =
     andThen (lk ''cursorComparator'' qb) (\<lambda>qb'.
       case c_cursorComparator (compiledData qb') of
         None \<Rightarrow> throw NoCursorComparator qb'
       | Some fn \<Rightarrow> Inr (fn cursorValue isAfter, qb'))"

text \<open>Only the non-empty text pieces of a template are recorded.\<close>

definition selectField :: "SQL \<times> RawAlias \<Rightarrow> SQL" where
  "selectField = (\<lambda>(sqlFragment, alias).
     Fragment [Emb sqlFragment, Txt '' as '', Emb (Identifier [alias])])"

definition buildSelectFields :: "lockfn \<Rightarrow> QueryBuilder \<Rightarrow> (SQL \<times> QueryBuilder) result" where
  "buildSelectFields lk qb =
     andThen (lockEverything lk qb) (\<lambda>qb'.
       Inr (Join (map selectField (c_select (compiledData qb'))) '', '', qb'))"

definition jsonField :: "SQL \<times> RawAlias \<Rightarrow> SQL" where
  "jsonField = (\<lambda>(sqlFragment, alias).
     Fragment [Emb (Literal (aliasVal alias)), Txt '', '', Emb sqlFragment])"

definition buildSelectJson :: "lockfn \<Rightarrow> bool \<Rightarrow> QueryBuilder \<Rightarrow> (SQL \<times> QueryBuilder) result" where
  "buildSelectJson lk addNullCase qb =
     andThen (lockEverything lk qb) (\<lambda>qb1.
     andThen
       (if c_select (compiledData qb1) \<noteq> []
        then Inr (Fragment [Txt ''json_build_object('',
                    Emb (Join (map jsonField (c_select (compiledData qb1))) '', ''),
                    Txt '')''], qb1)
        else andThen (getTableAlias lk qb1) (\<lambda>(a, qb2).
               Inr (Fragment [Txt ''to_json('', Emb a, Txt ''.*)''], qb2)))
       (\<lambda>(buildObject, qb3).
          if addNullCase
          then andThen (getTableAlias lk qb3) (\<lambda>(a, qb4).
                 Inr (Fragment [Txt ''(case when '', Emb a, Txt '' is null then null else '',
                        Emb buildObject, Txt '' end)''], qb4))
          else Inr (buildObject, qb3)))"

definition andClauses :: "SQL list \<Rightarrow> SQL" where
  "andClauses clauses = Fragment [Txt ''('', Emb (Join clauses '') and (''), Txt '')'']"

definition buildWhereBoundClause :: "lockfn \<Rightarrow> bool \<Rightarrow> QueryBuilder \<Rightarrow> (SQL \<times> QueryBuilder) result" where
  "buildWhereBoundClause lk isLower qb =
     andThen (lk ''whereBound'' qb) (\<lambda>qb'.
       let clauses = (if isLower then c_whereBound_lower (compiledData qb')
                      else c_whereBound_upper (compiledData qb'))
       in if clauses \<noteq> [] then Inr (andClauses clauses, qb')
          else Inr (Literal (JBool True), qb'))"

definition buildWhereClause ::
    "lockfn \<Rightarrow> bool \<Rightarrow> bool \<Rightarrow> bool \<Rightarrow> QueryBuilder \<Rightarrow> (SQL \<times> QueryBuilder) result" where
  "buildWhereClause lk includeLowerBound includeUpperBound addNullCase qb =
     andThen (lk ''where'' qb) (\<lambda>qb1.
     andThen
       (if addNullCase
        then andThen (getTableAlias lk qb1) (\<lambda>(a, qb2).
               Inr ([Fragment [Txt ''not ('', Emb a, Txt '' is null)'']], qb2))
        else Inr ([], qb1))
       (\<lambda>(nullCase, qb3).
     let predicates = c_where (compiledData qb3) in
     andThen
       (if includeLowerBound
        then andThen (buildWhereBoundClause lk True qb3) (\<lambda>(c, qb4). Inr ([c], qb4))
        else Inr ([], qb3))
       (\<lambda>(lower, qb5).
     andThen
       (if includeUpperBound
        then andThen (buildWhereBoundClause lk False qb5) (\<lambda>(c, qb6). Inr ([c], qb6))
        else Inr ([], qb5))
       (\<lambda>(upper, qb7).
     let clauses = nullCase @ predicates @ lower @ upper
     in if clauses \<noteq> [] then Inr (andClauses clauses, qb7)
        else Inr (Fragment [Txt ''1 = 1''], qb7)))))"

section \<open>build\<close>

record Options =
  asJson :: bool
  asJsonAggregate :: bool
  onlyJsonField :: bool
  addNullCase :: bool

definition defaultOptions :: Options where
  "defaultOptions =
     \<lparr>asJson = False, asJsonAggregate = False, onlyJsonField = False, addNullCase = False\<rparr>"

definition jsNumber :: "bool \<Rightarrow> int" where
  "jsNumber b = (if b then 1 else 0)"

text \<open>\<open>Number(ascending) ^ Number(this.compiledData.flip) ? ASC : DESC\<close>\<close>

definition direction :: "bool \<Rightarrow> bool \<Rightarrow> SQL" where
  "direction ascending flipped =
     (if (jsNumber ascending XOR jsNumber flipped) \<noteq> 0
      then Fragment [Txt ''ASC''] else Fragment [Txt ''DESC''])"

definition orderByEntry :: "bool \<Rightarrow> SQL \<times> bool \<Rightarrow> SQL" where
  "orderByEntry flipped = (\<lambda>(expr, ascending).
     Fragment [Emb expr, Txt '' '', Emb (direction ascending flipped)])"

definition orderByPiece :: "CompiledData \<Rightarrow> piece" where
  "orderByPiece c =
     (if c_orderBy c \<noteq> []
      then Emb (Fragment [Txt ''order by '',
                  Emb (Join (map (orderByEntry (c_flip c)) (c_orderBy c)) '','')])
      else EmbVal (JStr []))"

definition limitPiece :: "CompiledData \<Rightarrow> piece" where
  "limitPiece c =
     (if isSafeInteger (c_limit c)
      then Emb (Fragment [Txt ''limit '', Emb (Literal (JNum (the (c_limit c))))])
      else EmbVal (JBool False))"

definition offsetPiece :: "CompiledData \<Rightarrow> piece" where
  "offsetPiece c =
     (case c_offset c of
        None \<Rightarrow> EmbVal JNull
      | Some off \<Rightarrow>
          if truthy (JNum off)
          then Emb (Fragment [Txt ''offset '', Emb (Literal (JNum off))])
          else EmbVal (JNum off))"

definition joinPiece :: "CompiledData \<Rightarrow> piece" where
  "joinPiece c =
     (if c_join c \<noteq> [] then Emb (Join (c_join c) '' '') else EmbVal (JNum (Fin 0)))"

definition flipWrapper :: "nat \<Rightarrow> SQL \<Rightarrow> SQL" where
  "flipWrapper flipAlias fragment =
     Fragment [Txt ''\<newline>        with '', Emb (Identifier [ASym flipAlias]),
       Txt '' as (\<newline>          '', Emb fragment,
       Txt ''\<newline>        )\<newline>        select *\<newline>        from '',
       Emb (Identifier [ASym flipAlias]),
       Txt ''\<newline>        order by (row_number() over (partition by 1)) desc\<newline>        '']"

definition aggregateWrapper :: "nat \<Rightarrow> SQL \<Rightarrow> SQL" where
  "aggregateWrapper aggAlias fragment =
     Fragment [Txt ''select coalesce(('',
       Emb (Fragment [Txt ''select json_agg('',
              Emb (Identifier [ASym aggAlias, AStr ''object'']),
              Txt '') from ('', Emb fragment, Txt '') as '',
              Emb (Identifier [ASym aggAlias])]),
       Txt (''), '' @ [CHR 0x27] @ ''[]'' @ [CHR 0x27] @ ''::json)'')]"

definition build :: "lockfn \<Rightarrow> Options \<Rightarrow> QueryBuilder \<Rightarrow> (SQL \<times> QueryBuilder) result" where
  "build lk options qb =
     andThen (lockEverything lk qb) (\<lambda>qb1.
     if onlyJsonField options then buildSelectJson lk (addNullCase options) qb1
     else
     andThen
       (if asJson options \<or> asJsonAggregate options
        then andThen (buildSelectJson lk (addNullCase options) qb1) (\<lambda>(j, qb2).
               Inr (Fragment [Emb j, Txt '' as object''], qb2))
        else buildSelectFields lk qb1)
       (\<lambda>(fields, qb3).
     andThen
       (case c_from (compiledData qb3) of
          None \<Rightarrow> Inr (EmbVal JNull, qb3)
        | Some f \<Rightarrow>
            andThen (getTableAlias lk qb3) (\<lambda>(a, qb4).
              Inr (Emb (Fragment [Txt ''from '', Emb (fst f), Txt '' as '', Emb a]), qb4)))
       (\<lambda>(fromPiece, qb5).
     let joins = joinPiece (compiledData qb5) in
     andThen (buildWhereClause lk True True (addNullCase options) qb5) (\<lambda>(whereClause, qb6).
     let fragment = Fragment [Txt ''\<newline>      select '', Emb fields,
           Txt ''\<newline>      '', fromPiece,
           Txt ''\<newline>      '', joins,
           Txt ''\<newline>      where '', Emb whereClause,
           Txt ''\<newline>      '', orderByPiece (compiledData qb6),
           Txt ''\<newline>      '', limitPiece (compiledData qb6),
           Txt ''\<newline>      '', offsetPiece (compiledData qb6),
           Txt ''\<newline>    ''];
         flipped = (if c_flip (compiledData qb6)
                    then (flipWrapper (symbols qb6) fragment, qb6\<lparr>symbols := Suc (symbols qb6)\<rparr>)
                    else (fragment, qb6))
     in if asJsonAggregate options
        then Inr (aggregateWrapper (symbols (snd flipped)) (fst flipped),
                  (snd flipped)\<lparr>symbols := Suc (symbols (snd flipped))\<rparr>)
        else Inr flipped))))"

section \<open>Observations used in the statements\<close>

definition thrown :: "'a result \<Rightarrow> error option" where
  "thrown r = (case r of Inl e \<Rightarrow> Some (fst e) | Inr _ \<Rightarrow> None)"

section \<open>Relations between an earlier and a later state\<close>

definition newEvents :: "QueryBuilder \<Rightarrow> QueryBuilder \<Rightarrow> event list" where
  "newEvents q q' = drop (length (history q)) (history q')"

text \<open>
  What a relation between the state before a call and the state after it must satisfy
  to hold across every builder method other than \<open>lock\<close> itself: it is reflexive and
  transitive, it holds across the single assignments the methods make, across \<open>lk\<close>, and
  across \<open>limit\<close> and \<open>offset\<close> as wholes.
\<close>

definition carries :: "(QueryBuilder \<Rightarrow> QueryBuilder \<Rightarrow> bool) \<Rightarrow> lockfn \<Rightarrow> bool" where
  "carries R lk \<longleftrightarrow>
     (\<forall>q. R q q) \<and>
     (\<forall>a b c. R a b \<longrightarrow> R b c \<longrightarrow> R a c) \<and>
     (\<forall>q field fn. locks q field = None \<longrightarrow> R q (pushBeforeLock field fn q)) \<and>
     (\<forall>q d. d_beforeLock d = d_beforeLock (data q) \<longrightarrow> d_limit d = d_limit (data q) \<longrightarrow>
            d_offset d = d_offset (data q) \<longrightarrow> R q (q\<lparr>data := d\<rparr>)) \<and>
     (\<forall>q c. c_cursorComparator c = c_cursorComparator (compiledData q) \<longrightarrow>
            R q (q\<lparr>compiledData := c\<rparr>)) \<and>
     (\<forall>q k. R q (q\<lparr>symbols := k\<rparr>)) \<and>
     (\<forall>t q q'. lk t q = Inr q' \<longrightarrow> R q q') \<and>
     (\<forall>q v q'. locks q ''limit'' = None \<longrightarrow>
            lk ''limit'' (q\<lparr>data := (data q)\<lparr>d_limit := v\<rparr>\<rparr>) = Inr q' \<longrightarrow> R q q') \<and>
     (\<forall>q v q'. locks q ''offset'' = None \<longrightarrow>
            lk ''offset'' (q\<lparr>data := (data q)\<lparr>d_offset := v\<rparr>\<rparr>) = Inr q' \<longrightarrow> R q q')"

text \<open>
  What a relation must satisfy besides to hold across \<open>lock\<close> as well: it holds across the
  two assignments \<open>lock\<close> makes itself, across the assignment of \<open>limit\<close> or \<open>offset\<close>
  once the phase has been locked, and it never loses a lock.
\<close>

definition lawful :: "(QueryBuilder \<Rightarrow> QueryBuilder \<Rightarrow> bool) \<Rightarrow> bool" where
  "lawful R \<longleftrightarrow>
     (\<forall>q. R q q) \<and>
     (\<forall>a b c. R a b \<longrightarrow> R b c \<longrightarrow> R a c) \<and>
     (\<forall>q field fn. locks q field = None \<longrightarrow> R q (pushBeforeLock field fn q)) \<and>
     (\<forall>q d. d_beforeLock d = d_beforeLock (data q) \<longrightarrow> d_limit d = d_limit (data q) \<longrightarrow>
            d_offset d = d_offset (data q) \<longrightarrow> R q (q\<lparr>data := d\<rparr>)) \<and>
     (\<forall>q c. c_cursorComparator c = c_cursorComparator (compiledData q) \<longrightarrow>
            R q (q\<lparr>compiledData := c\<rparr>)) \<and>
     (\<forall>q k. R q (q\<lparr>symbols := k\<rparr>)) \<and>
     (\<forall>q v q'. locks q ''limit'' = None \<longrightarrow> R (q\<lparr>data := (data q)\<lparr>d_limit := v\<rparr>\<rparr>) q' \<longrightarrow>
            ''limit'' \<in> dom (locks q') \<longrightarrow> R q q') \<and>
     (\<forall>q v q'. locks q ''offset'' = None \<longrightarrow> R (q\<lparr>data := (data q)\<lparr>d_offset := v\<rparr>\<rparr>) q' \<longrightarrow>
            ''offset'' \<in> dom (locks q') \<longrightarrow> R q q') \<and>
     (\<forall>q q'. R q q' \<longrightarrow> dom (locks q) \<subseteq> dom (locks q'))"

text \<open>
  From a state to a later one: no lock is lost, every new lock is in the history, the
  history and the lists of callbacks only grow, the callbacks of a locked phase stay,
  \<open>finalized\<close> and \<open>isDev\<close> and the compiled comparator stay, and the draft limit and
  offset change only in a call that locks their phase.
\<close>

definition later :: "QueryBuilder \<Rightarrow> QueryBuilder \<Rightarrow> bool" where
  "later q q' \<longleftrightarrow>
     dom (locks q) \<subseteq> dom (locks q') \<and>
     finalized q' = finalized q \<and>
     isDev q' = isDev q \<and>
     c_cursorComparator (compiledData q') = c_cursorComparator (compiledData q) \<and>
     (\<forall>t. prefix (d_beforeLock (data q) t) (d_beforeLock (data q') t)) \<and>
     (\<forall>t. t \<in> dom (locks q) \<longrightarrow> d_beforeLock (data q') t = d_beforeLock (data q) t) \<and>
     prefix (history q) (history q') \<and>
     (\<forall>t. t \<in> dom (locks q') \<longrightarrow> t \<in> dom (locks q) \<or> Locked t \<in> set (newEvents q q')) \<and>
     (d_limit (data q') = d_limit (data q) \<or>
        ''limit'' \<notin> dom (locks q) \<and> ''limit'' \<in> dom (locks q')) \<and>
     (d_offset (data q') = d_offset (data q) \<or>
        ''offset'' \<notin> dom (locks q) \<and> ''offset'' \<in> dom (locks q'))"

text \<open>
  The wiring the constructor leaves behind: the callback that locks \<open>whereBound\<close> is
  registered for \<open>where\<close>, and \<open>where\<close> is not locked without \<open>whereBound\<close>.
\<close>

definition wired :: "QueryBuilder \<Rightarrow> bool" where
  "wired q \<longleftrightarrow>
     whereCallback \<in> set (d_beforeLock (data q) ''where'') \<and>
     (''where'' \<in> dom (locks q) \<longrightarrow> ''whereBound'' \<in> dom (locks q))"

definition staysWired :: "QueryBuilder \<Rightarrow> QueryBuilder \<Rightarrow> bool" where
  "staysWired q q' \<longleftrightarrow> later q q' \<and> (wired q \<longrightarrow> wired q')"

section \<open>The order of finalization, in the spec's words\<close>

text \<open>
  The spec's order: from, flip, joins, offset, limit, order-by, cursor-comparator,
  where-predicates, select-cursor, select-list. \<open>lockInOrder\<close> locks a list of phases
  one after the other.
\<close>

definition lockOrder :: "string list" where
  "lockOrder = [''from'', ''flip'', ''join'', ''offset'', ''limit'', ''orderBy'',
     ''cursorComparator'', ''where'', ''selectCursor'', ''select'']"

fun lockInOrder :: "lockfn \<Rightarrow> string list \<Rightarrow> QueryBuilder \<Rightarrow> QueryBuilder result" where
  "lockInOrder lk [] q = Inr q"
| "lockInOrder lk (t # ts) q = andThen (lk t q) (\<lambda>q'. lockInOrder lk ts q')"

text \<open>The phases a finalized builder has locked: those of the order, and \<open>whereBound\<close>.\<close>

definition finalPhases :: "string list" where
  "finalPhases = ''whereBound'' # lockOrder"

text \<open>The outcome of a mutator that found its phase locked: the error, and the builder untouched.\<close>

definition alreadyLocked :: "string \<Rightarrow> QueryBuilder \<Rightarrow> 'a result \<Rightarrow> bool" where
  "alreadyLocked t q r \<longleftrightarrow> (\<exists>l. locks q t = Some l \<and> r = Inl (AlreadyLocked t l, q))"

section \<open>The where clause, in the spec's words\<close>

text \<open>
  The spec's bound-clause compiler ANDs the predicates of a list, and an empty list is
  always-true; its where compiler ANDs, in order, the optional null guard, the plain
  predicates, the lower and the upper bound clause, and nothing at all is always-true.
\<close>

definition boundClause :: "SQL list \<Rightarrow> SQL" where
  "boundClause xs =
     (if xs = [] then Literal (JBool True)
      else Fragment [Txt ''('', Emb (Join xs '') and (''), Txt '')''])"

definition nullGuard :: "SQL \<Rightarrow> SQL" where
  "nullGuard a = Fragment [Txt ''not ('', Emb a, Txt '' is null)'']"

definition whereClauses :: "bool \<Rightarrow> bool \<Rightarrow> bool \<Rightarrow> CompiledData \<Rightarrow> SQL list" where
  "whereClauses includeLowerBound includeUpperBound nullCase c =
     (if nullCase then [nullGuard (snd (the (c_from c)))] else []) @
     c_where c @
     (if includeLowerBound then [boundClause (c_whereBound_lower c)] else []) @
     (if includeUpperBound then [boundClause (c_whereBound_upper c)] else [])"

definition allOf :: "SQL list \<Rightarrow> SQL" where
  "allOf clauses =
     (if clauses = [] then Fragment [Txt ''1 = 1'']
      else Fragment [Txt ''('', Emb (Join clauses '') and (''), Txt '')''])"

section \<open>What build computes from the compiled state\<close>

text \<open>
  On a builder whose phases are all locked, every \<open>lock\<close> call inside \<open>build\<close> returns at
  once, and \<open>build\<close> is a function of the compiled state and the symbol counter. The
  definitions below are that function, piece by piece; \<open>build_finalized\<close> proves that
  \<open>build\<close> computes it.
\<close>

definition nullCaseWrap :: "SQL \<Rightarrow> SQL \<Rightarrow> SQL" where
  "nullCaseWrap a buildObject =
     Fragment [Txt ''(case when '', Emb a, Txt '' is null then null else '',
       Emb buildObject, Txt '' end)'']"

definition jsonObject :: "CompiledData \<Rightarrow> SQL" where
  "jsonObject c =
     (if c_select c \<noteq> []
      then Fragment [Txt ''json_build_object('',
             Emb (Join (map jsonField (c_select c)) '', ''), Txt '')'']
      else Fragment [Txt ''to_json('', Emb (snd (the (c_from c))), Txt ''.*)''])"

definition needsAlias :: "Options \<Rightarrow> CompiledData \<Rightarrow> bool" where
  "needsAlias options c \<longleftrightarrow>
     addNullCase options \<or>
     ((asJson options \<or> asJsonAggregate options \<or> onlyJsonField options) \<and> c_select c = [])"

definition selectJson :: "bool \<Rightarrow> CompiledData \<Rightarrow> SQL" where
  "selectJson nullCase c =
     (if nullCase then nullCaseWrap (snd (the (c_from c))) (jsonObject c) else jsonObject c)"

definition fromPiece :: "CompiledData \<Rightarrow> piece" where
  "fromPiece c =
     (case c_from c of
        None \<Rightarrow> EmbVal JNull
      | Some f \<Rightarrow> Emb (Fragment [Txt ''from '', Emb (fst f), Txt '' as '', Emb (snd f)]))"

definition fieldsOf :: "Options \<Rightarrow> CompiledData \<Rightarrow> SQL" where
  "fieldsOf options c =
     (if asJson options \<or> asJsonAggregate options
      then Fragment [Emb (selectJson (addNullCase options) c), Txt '' as object'']
      else Join (map selectField (c_select c)) '', '')"

definition selectPieces :: "Options \<Rightarrow> CompiledData \<Rightarrow> piece list" where
  "selectPieces options c =
     [Txt ''\<newline>      select '', Emb (fieldsOf options c),
      Txt ''\<newline>      '', fromPiece c,
      Txt ''\<newline>      '', joinPiece c,
      Txt ''\<newline>      where '', Emb (allOf (whereClauses True True (addNullCase options) c)),
      Txt ''\<newline>      '', orderByPiece c,
      Txt ''\<newline>      '', limitPiece c,
      Txt ''\<newline>      '', offsetPiece c,
      Txt ''\<newline>    '']"

definition wrapped :: "Options \<Rightarrow> QueryBuilder \<Rightarrow> SQL \<Rightarrow> SQL" where
  "wrapped options q fragment =
     (let flipped = (if c_flip (compiledData q) then flipWrapper (symbols q) fragment else fragment);
          k = (if c_flip (compiledData q) then Suc (symbols q) else symbols q)
      in if asJsonAggregate options then aggregateWrapper k flipped else flipped)"

definition symbolsUsed :: "Options \<Rightarrow> QueryBuilder \<Rightarrow> nat" where
  "symbolsUsed options q =
     (if c_flip (compiledData q) then 1 else 0) + (if asJsonAggregate options then 1 else 0)"

definition assembled :: "Options \<Rightarrow> QueryBuilder \<Rightarrow> (SQL \<times> QueryBuilder) result" where
  "assembled options q =
     (if needsAlias options (compiledData q) \<and> c_from (compiledData q) = None
      then Inl (NoFromTableSupplied, q)
      else if onlyJsonField options
      then Inr (selectJson (addNullCase options) (compiledData q), q)
      else Inr (wrapped options q (Fragment (selectPieces options (compiledData q))),
                q\<lparr>symbols := symbols q + symbolsUsed options q\<rparr>))"

section \<open>Clauses of the assembled query, in the spec's words\<close>

definition limitClause :: "jsnum \<Rightarrow> piece" where
  "limitClause l = Emb (Fragment [Txt ''limit '', Emb (Literal (JNum l))])"

definition offsetClause :: "jsnum \<Rightarrow> piece" where
  "offsetClause off = Emb (Fragment [Txt ''offset '', Emb (Literal (JNum off))])"



section \<open>Events of one phase\<close>

fun about :: "string \<Rightarrow> event \<Rightarrow> bool" where
  "about t (Ran u i) = (u = t)"
| "about t (Locked u) = (u = t)"



section \<open>Limits and offsets that are not negative\<close>

text \<open>
  The draft and the compiled limit and offset of a builder are each unset (\<open>null\<close>) or
  a number that is not negative (\<open>NaN\<close> is not negative).
\<close>

fun notNegative :: "jsnum option \<Rightarrow> bool" where
  "notNegative None = True"
| "notNegative (Some x) = (\<not> isNegative x)"

definition clamped :: "QueryBuilder \<Rightarrow> bool" where
  "clamped q \<longleftrightarrow>
     notNegative (d_limit (data q)) \<and> notNegative (d_offset (data q)) \<and>
     notNegative (c_limit (compiledData q)) \<and> notNegative (c_offset (compiledData q))"

section \<open>Properties\<close>

subsection \<open>Sequencing and checkLock\<close>

lemma andThen_Inr [simp]: "andThen (Inr x) f = f x"
  by (simp add: andThen_def)

lemma andThen_Inl [simp]: "andThen (Inl e) f = Inl e"
  by (simp add: andThen_def)

lemma andThen_eq_Inr:
  "andThen m f = Inr y \<longleftrightarrow> (\<exists>x. m = Inr x \<and> f x = Inr y)"
  by (cases m) simp_all

lemma checkLock_open [simp]: "locks qb type = None \<Longrightarrow> checkLock type qb = Inr ()"
  by (simp add: checkLock_def)

lemma checkLock_locked [simp]:
  "locks qb type = Some l \<Longrightarrow> checkLock type qb = Inl (AlreadyLocked type l, qb)"
  by (simp add: checkLock_def throw_def)

lemma checkLock_eq_Inr: "checkLock type qb = Inr u \<longleftrightarrow> locks qb type = None"
  by (cases "locks qb type") simp_all

lemma runCallbacks_done [simp]:
  "length (d_beforeLock (data qb) type) \<le> i \<Longrightarrow> runCallbacks lk k type i qb = Inr qb"
  by (cases k) simp_all

lemma lock_locked [simp]: "locks qb type = Some l \<Longrightarrow> lock (Suc n) type qb = Inr qb"
  by simp

subsection \<open>setOrderIsUnique and the lock\<close>

text \<open>
  C1. Every mutator of a phase should throw once the phase is locked. \<open>setOrderIsUnique\<close>
  has no \<open>checkLock\<close>: on a new builder whose phase \<open>orderIsUnique\<close> has been locked
  (the compiled flag is \<open>false\<close>), it returns normally and sets the draft flag.
\<close>

theorem setOrderIsUnique_after_lock:
  "(case lock (Suc 0) ''orderIsUnique'' (newQueryBuilder dev) of
      Inl _ \<Rightarrow> False
    | Inr qb \<Rightarrow>
        locks qb ''orderIsUnique'' \<noteq> None \<and> \<not> d_orderIsUnique (data qb) \<and>
        (case setOrderIsUnique qb of
           Inl _ \<Rightarrow> False
         | Inr qb' \<Rightarrow> d_orderIsUnique (data qb') \<and> \<not> c_orderIsUnique (compiledData qb')))"
  by (simp add: setOrderIsUnique_def newQueryBuilder_def pushBeforeLock_def emptyData_def
      emptyCompiledData_def compile_def setLock_def)

subsection \<open>The cursor comparator\<close>

text \<open>
  C6. \<open>cursorCondition\<close> should return what the comparator returns once
  \<open>setCursorComparator(fn)\<close> has been called. The branch of \<open>lock\<close> for
  \<open>cursorComparator\<close> is empty, so the compiled comparator stays \<open>null\<close>: on a new
  builder, \<open>setCursorComparator(fn)\<close> followed by \<open>cursorCondition(cursorValue, isAfter)\<close>
  throws "No cursor comparator was set!".
\<close>

theorem cursorCondition_after_setCursorComparator:
  "thrown (andThen (setCursorComparator (lock (Suc n)) fn (newQueryBuilder dev))
       (cursorCondition (lock (Suc n)) cursorValue isAfter)) = Some NoCursorComparator"
  by (simp add: thrown_def setCursorComparator_def cursorCondition_def newQueryBuilder_def
      pushBeforeLock_def emptyData_def emptyCompiledData_def compile_def setLock_def throw_def)

subsection \<open>Relations carried across the methods\<close>

lemma carD_refl: "carries R lk \<Longrightarrow> R q q"
  by (simp add: carries_def)

lemma carD_trans:
  assumes "carries R lk" "R a b" "R b c" shows "R a c"
proof -
  from assms(1) have "\<forall>a b c. R a b \<longrightarrow> R b c \<longrightarrow> R a c"
    by (simp add: carries_def)
  with assms(2,3) show ?thesis by blast
qed

lemma carD_push: "carries R lk \<Longrightarrow> locks q field = None \<Longrightarrow> R q (pushBeforeLock field fn q)"
  by (simp add: carries_def)

lemma carD_data:
  "carries R lk \<Longrightarrow> d_beforeLock d = d_beforeLock (data q) \<Longrightarrow> d_limit d = d_limit (data q) \<Longrightarrow>
   d_offset d = d_offset (data q) \<Longrightarrow> R q (q\<lparr>data := d\<rparr>)"
  by (simp add: carries_def)

lemma carD_compiled:
  "carries R lk \<Longrightarrow> c_cursorComparator c = c_cursorComparator (compiledData q) \<Longrightarrow>
   R q (q\<lparr>compiledData := c\<rparr>)"
  by (simp add: carries_def)

lemma carD_symbols: "carries R lk \<Longrightarrow> R q (q\<lparr>symbols := k\<rparr>)"
  by (simp add: carries_def)

lemma carD_lk: "carries R lk \<Longrightarrow> lk t q = Inr q' \<Longrightarrow> R q q'"
  by (simp add: carries_def)

lemma carD_limit:
  "carries R lk \<Longrightarrow> locks q ''limit'' = None \<Longrightarrow>
   lk ''limit'' (q\<lparr>data := (data q)\<lparr>d_limit := v\<rparr>\<rparr>) = Inr q' \<Longrightarrow> R q q'"
  by (simp add: carries_def)

lemma carD_offset:
  "carries R lk \<Longrightarrow> locks q ''offset'' = None \<Longrightarrow>
   lk ''offset'' (q\<lparr>data := (data q)\<lparr>d_offset := v\<rparr>\<rparr>) = Inr q' \<Longrightarrow> R q q'"
  by (simp add: carries_def)

lemma beforeLock_keeps: "carries R lk \<Longrightarrow> beforeLock field fn q = Inr q' \<Longrightarrow> R q q'"
  by (auto simp: beforeLock_def andThen_eq_Inr checkLock_eq_Inr carD_push)

lemma select_keeps: "carries R lk \<Longrightarrow> select g a q = Inr q' \<Longrightarrow> R q q'"
  by (auto simp: select_def andThen_eq_Inr carD_data)

lemma selectCursor_keeps: "carries R lk \<Longrightarrow> selectCursor g q = Inr q' \<Longrightarrow> R q q'"
  by (auto simp: selectCursor_def andThen_eq_Inr carD_data)

lemma where_keeps: "carries R lk \<Longrightarrow> where' g q = Inr q' \<Longrightarrow> R q q'"
  by (auto simp: where'_def andThen_eq_Inr carD_data)

lemma whereBound_keeps: "carries R lk \<Longrightarrow> whereBound g b q = Inr q' \<Longrightarrow> R q q'"
  by (auto simp: whereBound_def andThen_eq_Inr carD_data throw_def split: jsval.splits if_splits)

lemma setOrderIsUnique_keeps: "carries R lk \<Longrightarrow> setOrderIsUnique q = Inr q' \<Longrightarrow> R q q'"
  by (auto simp: setOrderIsUnique_def carD_data)

lemma orderBy_keeps: "carries R lk \<Longrightarrow> orderBy g a q = Inr q' \<Longrightarrow> R q q'"
  by (auto simp: orderBy_def andThen_eq_Inr carD_data)

lemma setCursorComparator_keeps:
  assumes "carries R lk" "setCursorComparator lk fn q = Inr q'" shows "R q q'"
proof -
  let ?q1 = "q\<lparr>data := (data q)\<lparr>d_cursorComparator := Some fn\<rparr>\<rparr>"
  from assms(2) have "lk ''cursorComparator'' ?q1 = Inr q'"
    by (auto simp: setCursorComparator_def andThen_eq_Inr)
  then have "R ?q1 q'" by (rule carD_lk [OF assms(1)])
  moreover have "R q ?q1" by (simp add: carD_data [OF assms(1)])
  ultimately show ?thesis by (blast intro: carD_trans [OF assms(1)])
qed

lemma flip_keeps:
  assumes "carries R lk" "flip lk q = Inr q'" shows "R q q'"
proof -
  let ?q1 = "q\<lparr>data := (data q)\<lparr>d_flip := True\<rparr>\<rparr>"
  from assms(2) have "lk ''flip'' ?q1 = Inr q'"
    by (auto simp: flip_def andThen_eq_Inr)
  then have "R ?q1 q'" by (rule carD_lk [OF assms(1)])
  moreover have "R q ?q1" by (simp add: carD_data [OF assms(1)])
  ultimately show ?thesis by (blast intro: carD_trans [OF assms(1)])
qed

lemma limit_keeps: "carries R lk \<Longrightarrow> limit lk l q = Inr q' \<Longrightarrow> R q q'"
  by (auto simp: limit_def andThen_eq_Inr checkLock_eq_Inr intro: carD_limit)

lemma offset_keeps: "carries R lk \<Longrightarrow> offset lk l q = Inr q' \<Longrightarrow> R q q'"
  by (auto simp: offset_def andThen_eq_Inr checkLock_eq_Inr intro: carD_offset)

lemma from_keeps:
  assumes "carries R lk" "from' lk expr al q = Inr q'" shows "R q q'"
proof -
  note r = assms(1)
  define q0 where "q0 = (case al of Undefined \<Rightarrow> q\<lparr>symbols := Suc (symbols q)\<rparr> | _ \<Rightarrow> q)"
  have a: "R q q0"
    by (cases al) (simp_all add: q0_def carD_refl [OF r] carD_symbols [OF r])
  from assms(2) obtain e a where "lk ''from'' (q0\<lparr>data := (data q0)\<lparr>d_from := Some (e, a)\<rparr>\<rparr>) = Inr q'"
    by (auto simp: from'_def Let_def q0_def andThen_eq_Inr throw_def split: jsarg.splits)
  then have "R (q0\<lparr>data := (data q0)\<lparr>d_from := Some (e, a)\<rparr>\<rparr>) q'" by (rule carD_lk [OF r])
  moreover have "R q0 (q0\<lparr>data := (data q0)\<lparr>d_from := Some (e, a)\<rparr>\<rparr>)"
    by (simp add: carD_data [OF r])
  ultimately show ?thesis using a by (blast intro: carD_trans [OF r])
qed

lemma isOrderUnique_keeps: "carries R lk \<Longrightarrow> isOrderUnique lk q = Inr (v, q') \<Longrightarrow> R q q'"
  by (auto simp: isOrderUnique_def andThen_eq_Inr intro: carD_lk)

lemma getSelectCursor_keeps: "carries R lk \<Longrightarrow> getSelectCursor lk q = Inr (v, q') \<Longrightarrow> R q q'"
  by (auto simp: getSelectCursor_def andThen_eq_Inr intro: carD_lk)

lemma getTableAlias_keeps: "carries R lk \<Longrightarrow> getTableAlias lk q = Inr (v, q') \<Longrightarrow> R q q'"
  by (auto simp: getTableAlias_def andThen_eq_Inr throw_def split: option.splits intro: carD_lk)

lemma evalCond_keeps: "carries R lk \<Longrightarrow> evalCond lk c q = Inr (v, q') \<Longrightarrow> R q q'"
  by (cases c) (auto simp: evalCond_def andThen_eq_Inr intro: isOrderUnique_keeps getSelectCursor_keeps)

lemma execStmt_call_keeps:
  shows "carries R lk \<Longrightarrow> execStmt lk s q = Inr q' \<Longrightarrow> R q q'"
    and "carries R lk \<Longrightarrow> call lk ss q = Inr q' \<Longrightarrow> R q q'"
proof (induction lk s q and lk ss q arbitrary: q' and q' rule: execStmt_call.induct)
  case (14 lk al qb)
  then show ?case
    by (auto split: option.splits intro: select_keeps carD_refl)
next
  case (15 lk c thenBranch elseBranch qb)
  note r = "15.prems"(1)
  from "15.prems" obtain v qb1 where e: "evalCond lk c qb = Inr (v, qb1)"
    and k: "(if v then call lk thenBranch qb1 else call lk elseBranch qb1) = Inr q'"
    by (auto simp: andThen_eq_Inr)
  have "R qb qb1" by (rule evalCond_keeps [OF r e])
  moreover have "R qb1 q'" using k "15.IH" r by (cases v) auto
  ultimately show ?case by (rule carD_trans [OF r])
next
  case (17 lk s ss qb)
  note r = "17.prems"(1)
  from "17.prems" obtain qb1 where e: "execStmt lk s qb = Inr qb1" and k: "call lk ss qb1 = Inr q'"
    by (auto simp: andThen_eq_Inr)
  have "R qb qb1" by (rule "17.IH"(1) [OF r e])
  moreover have "R qb1 q'" by (rule "17.IH"(2) [OF r k])
  ultimately show ?case by (rule carD_trans [OF r])
qed (auto intro: carD_lk beforeLock_keeps setCursorComparator_keeps
      select_keeps selectCursor_keeps from_keeps where_keeps
      whereBound_keeps setOrderIsUnique_keeps orderBy_keeps
      limit_keeps offset_keeps flip_keeps carD_refl)

lemma callIfNecessary_keeps:
  assumes r: "carries R lk" and c: "callIfNecessary lk g q = Inr (s, q')" shows "R q q'"
proof (cases g)
  case (Val x)
  with c show ?thesis by (simp add: callIfNecessary_def carD_refl [OF r])
next
  case (Gen body x)
  with c show ?thesis
    by (auto simp: callIfNecessary_def andThen_eq_Inr intro: execStmt_call_keeps(2) [OF r])
next
  case (GenAlias body f)
  with c obtain q1 a where "call lk body q = Inr q1" "getTableAlias lk q1 = Inr (a, q')"
    by (auto simp: callIfNecessary_def andThen_eq_Inr)
  then have "R q q1" "R q1 q'"
    by (auto intro: execStmt_call_keeps(2) [OF r] getTableAlias_keeps [OF r])
  then show ?thesis by (rule carD_trans [OF r])
qed

lemma callIfNecessaryArray_keeps:
  assumes r: "carries R lk" shows "callIfNecessaryArray lk gs q = Inr (ss, q') \<Longrightarrow> R q q'"
proof (induction gs arbitrary: q ss)
  case Nil
  then show ?case by (simp add: carD_refl [OF r])
next
  case (Cons g gs)
  from Cons.prems obtain s q1 ss1 where "callIfNecessary lk g q = Inr (s, q1)"
    "callIfNecessaryArray lk gs q1 = Inr (ss1, q')"
    by (auto simp: andThen_eq_Inr)
  then have "R q q1" "R q1 q'"
    by (auto intro: callIfNecessary_keeps [OF r] Cons.IH)
  then show ?case by (rule carD_trans [OF r])
qed

lemma callIfNecessaryPairs_keeps:
  assumes r: "carries R lk" shows "callIfNecessaryPairs lk xs q = Inr (ys, q') \<Longrightarrow> R q q'"
proof (induction xs arbitrary: q ys)
  case Nil
  then show ?case by (simp add: carD_refl [OF r])
next
  case (Cons x xs)
  from Cons.prems obtain s q1 ys1 where "callIfNecessary lk (fst x) q = Inr (s, q1)"
    "callIfNecessaryPairs lk xs q1 = Inr (ys1, q')"
    by (cases x) (auto simp: andThen_eq_Inr)
  then have "R q q1" "R q1 q'"
    by (auto intro: callIfNecessary_keeps [OF r] Cons.IH)
  then show ?case by (rule carD_trans [OF r])
qed

lemma carD_compiled_after:
  assumes r: "carries R lk" and a: "R q q1"
    and c: "c_cursorComparator c = c_cursorComparator (compiledData q1)"
  shows "R q (q1\<lparr>compiledData := c\<rparr>)"
  by (rule carD_trans [OF r a carD_compiled [OF r c]])

lemma compile_keeps:
  assumes r: "carries R lk" and c: "compile lk t q = Inr q'" shows "R q q'"
proof -
  note rf = carD_refl [OF r] and ca = carD_compiled_after [OF r]
    and k1 = callIfNecessary_keeps [OF r] and k2 = callIfNecessaryArray_keeps [OF r]
    and k3 = callIfNecessaryPairs_keeps [OF r]
  consider "t = ''cursorComparator''" | "t = ''whereBound''" | "t = ''select''" | "t = ''orderBy''"
    | "t = ''from''" | "t = ''join''" | "t = ''where''" | "t = ''selectCursor''"
    | "t = ''cursorPrefix'' \<or> t = ''orderIsUnique'' \<or> t = ''limit'' \<or> t = ''offset'' \<or> t = ''flip''"
    | "t \<noteq> ''cursorComparator''" "t \<noteq> ''whereBound''" "t \<noteq> ''select''" "t \<noteq> ''orderBy''"
      "t \<noteq> ''from''" "t \<noteq> ''join''" "t \<noteq> ''where''" "t \<noteq> ''selectCursor''"
      "t \<noteq> ''cursorPrefix''" "t \<noteq> ''orderIsUnique''" "t \<noteq> ''limit''" "t \<noteq> ''offset''"
      "t \<noteq> ''flip''"
    by blast
  then show ?thesis
  proof cases
    case 1
    with c show ?thesis by (simp add: compile_def rf)
  next
    case 2
    with c obtain lower q1 upper q3 where
      a: "callIfNecessaryArray lk (d_whereBound_lower (data q)) q = Inr (lower, q1)"
      and b: "callIfNecessaryArray lk
          (d_whereBound_upper (data (q1\<lparr>compiledData := (compiledData q1)\<lparr>c_whereBound_lower := lower\<rparr>\<rparr>)))
          (q1\<lparr>compiledData := (compiledData q1)\<lparr>c_whereBound_lower := lower\<rparr>\<rparr>) = Inr (upper, q3)"
      and e: "q' = q3\<lparr>compiledData := (compiledData q3)\<lparr>c_whereBound_upper := upper\<rparr>\<rparr>"
      by (auto simp: compile_def andThen_eq_Inr Let_def)
    have "R q (q1\<lparr>compiledData := (compiledData q1)\<lparr>c_whereBound_lower := lower\<rparr>\<rparr>)"
      by (rule ca [OF k2 [OF a]]) simp
    then have "R q q3" by (rule carD_trans [OF r _ k2 [OF b]])
    then show ?thesis unfolding e by (rule ca) simp
  next
    case 3
    with c show ?thesis
      by (auto simp: compile_def andThen_eq_Inr intro!: ca dest: k3)
  next
    case 4
    with c show ?thesis
      by (auto simp: compile_def andThen_eq_Inr intro!: ca dest: k3)
  next
    case 5
    with c show ?thesis
      by (auto simp: compile_def andThen_eq_Inr rf split: option.splits intro!: ca dest: k1)
  next
    case 6
    with c show ?thesis
      by (auto simp: compile_def andThen_eq_Inr intro!: ca dest: k2)
  next
    case 7
    with c show ?thesis
      by (auto simp: compile_def andThen_eq_Inr intro!: ca dest: k2)
  next
    case 8
    with c show ?thesis
      by (auto simp: compile_def andThen_eq_Inr split: option.splits intro!: ca rf dest: k1)
  next
    case 9
    with c show ?thesis
      by (auto simp: compile_def intro!: ca rf)
  next
    case 10
    with c show ?thesis by (simp add: compile_def throw_def)
  qed
qed

subsection \<open>Relations carried across lock\<close>

lemma lawD_limit:
  assumes "lawful R" "locks q ''limit'' = None" "R (q\<lparr>data := (data q)\<lparr>d_limit := v\<rparr>\<rparr>) q'"
    "''limit'' \<in> dom (locks q')"
  shows "R q q'"
proof -
  from assms(1) have "\<forall>q v q'. locks q ''limit'' = None \<longrightarrow>
      R (q\<lparr>data := (data q)\<lparr>d_limit := v\<rparr>\<rparr>) q' \<longrightarrow> ''limit'' \<in> dom (locks q') \<longrightarrow> R q q'"
    unfolding lawful_def by (elim conjE)
  then show ?thesis using assms(2-4) by (elim allE impE)
qed

lemma lawD_offset:
  assumes "lawful R" "locks q ''offset'' = None" "R (q\<lparr>data := (data q)\<lparr>d_offset := v\<rparr>\<rparr>) q'"
    "''offset'' \<in> dom (locks q')"
  shows "R q q'"
proof -
  from assms(1) have "\<forall>q v q'. locks q ''offset'' = None \<longrightarrow>
      R (q\<lparr>data := (data q)\<lparr>d_offset := v\<rparr>\<rparr>) q' \<longrightarrow> ''offset'' \<in> dom (locks q') \<longrightarrow> R q q'"
    unfolding lawful_def by (elim conjE)
  then show ?thesis using assms(2-4) by (elim allE impE)
qed

lemma lawD_trans:
  assumes "lawful R" "R a b" "R b c" shows "R a c"
proof -
  from assms(1) have "\<forall>a b c. R a b \<longrightarrow> R b c \<longrightarrow> R a c"
    by (simp add: lawful_def)
  with assms(2,3) show ?thesis by blast
qed

lemma lawD_dom: "lawful R \<Longrightarrow> R q q' \<Longrightarrow> dom (locks q) \<subseteq> dom (locks q')"
  by (simp add: lawful_def)

lemma lawful_carries:
  assumes l: "lawful R" and k: "\<And>t q q'. lk t q = Inr q' \<Longrightarrow> R q q' \<and> t \<in> dom (locks q')"
  shows "carries R lk"
  unfolding carries_def
proof (intro conjI allI impI)
  fix q v q'
  assume a: "locks q ''limit'' = None" "lk ''limit'' (q\<lparr>data := (data q)\<lparr>d_limit := v\<rparr>\<rparr>) = Inr q'"
  from k [OF a(2)] show "R q q'" by (auto intro: lawD_limit [OF l a(1)])
next
  fix q v q'
  assume a: "locks q ''offset'' = None" "lk ''offset'' (q\<lparr>data := (data q)\<lparr>d_offset := v\<rparr>\<rparr>) = Inr q'"
  from k [OF a(2)] show "R q q'" by (auto intro: lawD_offset [OF l a(1)])
next
  fix a b c assume "R a b" "R b c"
  then show "R a c" by (rule lawD_trans [OF l])
next
  fix t q q' assume "lk t q = Inr q'"
  from k [OF this] show "R q q'" by simp
qed (use l in \<open>simp_all add: lawful_def\<close>)

lemma runCallbacks_keeps:
  assumes r: "carries R lk" and h: "\<And>q i. R q (q\<lparr>history := history q @ [Ran t i]\<rparr>)"
  shows "runCallbacks lk k t i q = Inr q' \<Longrightarrow> R q q'"
proof (induction k arbitrary: i q)
  case 0
  then show ?case by (auto simp: throw_def carD_refl [OF r] split: if_splits)
next
  case (Suc k)
  show ?case
  proof (cases "i < length (d_beforeLock (data q) t)")
    case True
    with Suc.prems obtain q1 where
      a: "call lk (d_beforeLock (data q) t ! i) (q\<lparr>history := history q @ [Ran t i]\<rparr>) = Inr q1"
      and b: "runCallbacks lk k t (Suc i) q1 = Inr q'"
      by (auto simp: andThen_eq_Inr)
    have "R q (q\<lparr>history := history q @ [Ran t i]\<rparr>)" by (rule h)
    moreover have "R (q\<lparr>history := history q @ [Ran t i]\<rparr>) q1"
      by (rule execStmt_call_keeps(2) [OF r a])
    moreover have "R q1 q'" by (rule Suc.IH [OF b])
    ultimately show ?thesis by (blast intro: carD_trans [OF r])
  next
    case False
    with Suc.prems show ?thesis by (simp add: carD_refl [OF r])
  qed
qed

lemma setLock_locks [simp]: "t \<in> dom (locks (setLock t q))"
  by (simp add: setLock_def)

lemma lock_lawful:
  assumes l: "lawful R"
    and h: "\<And>q t i. R q (q\<lparr>history := history q @ [Ran t i]\<rparr>)"
    and s: "\<And>q t. R q (setLock t q)"
  shows "lock n t q = Inr q' \<Longrightarrow> R q q' \<and> t \<in> dom (locks q')"
proof (induction n arbitrary: t q q')
  case 0
  then show ?case by (simp add: throw_def)
next
  case (Suc n)
  have r: "carries R (lock n)" by (rule lawful_carries [OF l]) (rule Suc.IH)
  have rf: "R q q" for q using l by (simp add: lawful_def)
  have dm: "dom (locks a) \<subseteq> dom (locks b)" if "R a b" for a b
    by (rule lawD_dom [OF l that])
  show ?case
  proof (cases "locks q t")
    case (Some v)
    with Suc.prems show ?thesis by (auto simp: rf)
  next
    case None
    with Suc.prems obtain q1 where a: "runCallbacks (lock n) n t 0 q = Inr q1"
      and b: "compile (lock n) t (setLock t q1) = Inr q'"
      by (auto simp: andThen_eq_Inr)
    have 1: "R q q1" by (rule runCallbacks_keeps [OF r h a])
    have 2: "R q1 (setLock t q1)" by (rule s)
    have 3: "R (setLock t q1) q'" by (rule compile_keeps [OF r b])
    from 1 2 3 have "R q q'" by (blast intro: carD_trans [OF r])
    moreover from dm [OF 3] have "t \<in> dom (locks q')" using setLock_locks by blast
    ultimately show ?thesis ..
  qed
qed

lemma newEvents_self [simp]: "newEvents q q = []"
  by (simp add: newEvents_def)

lemma newEvents_append:
  "prefix (history a) (history b) \<Longrightarrow> prefix (history b) (history c) \<Longrightarrow>
   newEvents a c = newEvents a b @ newEvents b c"
  by (auto simp: newEvents_def prefix_def)

lemma later_refl: "later q q"
  by (simp add: later_def)

lemma changed_chain:
  "x1 = x0 \<or> t \<notin> A \<and> t \<in> B \<Longrightarrow> x2 = x1 \<or> t \<notin> B \<and> t \<in> C \<Longrightarrow> A \<subseteq> B \<Longrightarrow> B \<subseteq> C \<Longrightarrow>
   x2 = x0 \<or> t \<notin> A \<and> t \<in> C"
  by blast

lemma later_trans:
  assumes ab: "later a b" and bc: "later b c" shows "later a c"
proof -
  have p: "prefix (history a) (history b)" "prefix (history b) (history c)"
    using ab bc by (simp_all add: later_def)
  have ne: "newEvents a c = newEvents a b @ newEvents b c"
    by (rule newEvents_append [OF p])
  have d: "dom (locks a) \<subseteq> dom (locks b)" "dom (locks b) \<subseteq> dom (locks c)"
    using ab bc by (simp_all add: later_def)
  have 1: "t \<in> dom (locks a) \<or> Locked t \<in> set (newEvents a c)" if "t \<in> dom (locks c)" for t
  proof -
    from bc that have "t \<in> dom (locks b) \<or> Locked t \<in> set (newEvents b c)"
      by (simp add: later_def)
    moreover from ab have "t \<in> dom (locks b) \<Longrightarrow> t \<in> dom (locks a) \<or> Locked t \<in> set (newEvents a b)"
      by (simp add: later_def)
    ultimately show ?thesis unfolding ne by auto
  qed
  have 2: "prefix (d_beforeLock (data a) t) (d_beforeLock (data c) t)" for t
  proof -
    have "prefix (d_beforeLock (data a) t) (d_beforeLock (data b) t)"
      "prefix (d_beforeLock (data b) t) (d_beforeLock (data c) t)"
      using ab bc by (simp_all add: later_def)
    then show ?thesis by (rule prefix_order.trans)
  qed
  have 3: "prefix (history a) (history c)"
    using p by (rule prefix_order.trans)
  have 4: "d_limit (data c) = d_limit (data a) \<or> ''limit'' \<notin> dom (locks a) \<and> ''limit'' \<in> dom (locks c)"
  proof -
    from ab have x: "d_limit (data b) = d_limit (data a) \<or> ''limit'' \<notin> dom (locks a) \<and> ''limit'' \<in> dom (locks b)"
      by (simp add: later_def)
    from bc have y: "d_limit (data c) = d_limit (data b) \<or> ''limit'' \<notin> dom (locks b) \<and> ''limit'' \<in> dom (locks c)"
      by (simp add: later_def)
    from x y d show ?thesis by (rule changed_chain)
  qed
  have 5: "d_offset (data c) = d_offset (data a) \<or> ''offset'' \<notin> dom (locks a) \<and> ''offset'' \<in> dom (locks c)"
  proof -
    from ab have x: "d_offset (data b) = d_offset (data a) \<or> ''offset'' \<notin> dom (locks a) \<and> ''offset'' \<in> dom (locks b)"
      by (simp add: later_def)
    from bc have y: "d_offset (data c) = d_offset (data b) \<or> ''offset'' \<notin> dom (locks b) \<and> ''offset'' \<in> dom (locks c)"
      by (simp add: later_def)
    from x y d show ?thesis by (rule changed_chain)
  qed
  have 6: "finalized c = finalized a" "isDev c = isDev a"
    "c_cursorComparator (compiledData c) = c_cursorComparator (compiledData a)"
    using ab bc by (simp_all add: later_def)
  from d have 7: "dom (locks a) \<subseteq> dom (locks c)" by blast
  have 8: "d_beforeLock (data c) t = d_beforeLock (data a) t" if "t \<in> dom (locks a)" for t
  proof -
    from that d have "t \<in> dom (locks b)" by blast
    with bc have "d_beforeLock (data c) t = d_beforeLock (data b) t" by (simp add: later_def)
    moreover from that ab have "d_beforeLock (data b) t = d_beforeLock (data a) t"
      by (simp add: later_def)
    ultimately show ?thesis by simp
  qed
  show ?thesis
    unfolding later_def by (intro conjI allI impI) (simp_all add: 1 2 3 4 5 6 7 8)
qed

lemma later_limit:
  assumes "locks q ''limit'' = None" "later (q\<lparr>data := (data q)\<lparr>d_limit := v\<rparr>\<rparr>) q'"
    "''limit'' \<in> dom (locks q')"
  shows "later q q'"
  using assms by (simp add: later_def newEvents_def domIff)

lemma later_offset:
  assumes "locks q ''offset'' = None" "later (q\<lparr>data := (data q)\<lparr>d_offset := v\<rparr>\<rparr>) q'"
    "''offset'' \<in> dom (locks q')"
  shows "later q q'"
  using assms by (simp add: later_def newEvents_def domIff)

lemma later_push: "locks q field = None \<Longrightarrow> later q (pushBeforeLock field fn q)"
  by (auto simp: later_def pushBeforeLock_def newEvents_def)

lemma later_data:
  "d_beforeLock d = d_beforeLock (data q) \<Longrightarrow> d_limit d = d_limit (data q) \<Longrightarrow>
   d_offset d = d_offset (data q) \<Longrightarrow> later q (q\<lparr>data := d\<rparr>)"
  by (simp add: later_def newEvents_def)

lemma later_compiled:
  "c_cursorComparator c = c_cursorComparator (compiledData q) \<Longrightarrow> later q (q\<lparr>compiledData := c\<rparr>)"
  by (simp add: later_def newEvents_def)

lemma later_symbols: "later q (q\<lparr>symbols := k\<rparr>)"
  by (simp add: later_def newEvents_def)

lemma later_dom: "later q q' \<Longrightarrow> dom (locks q) \<subseteq> dom (locks q')"
  by (simp add: later_def)

lemma lawful_later: "lawful later"
  unfolding lawful_def
proof (intro conjI allI impI)
  fix a b c assume "later a b" "later b c"
  then show "later a c" by (rule later_trans)
next
  fix q v q'
  assume "locks q ''limit'' = None" "later (q\<lparr>data := (data q)\<lparr>d_limit := v\<rparr>\<rparr>) q'"
    "''limit'' \<in> dom (locks q')"
  then show "later q q'" by (rule later_limit)
next
  fix q v q'
  assume "locks q ''offset'' = None" "later (q\<lparr>data := (data q)\<lparr>d_offset := v\<rparr>\<rparr>) q'"
    "''offset'' \<in> dom (locks q')"
  then show "later q q'" by (rule later_offset)
next
  fix q q' assume "later q q'"
  then show "dom (locks q) \<subseteq> dom (locks q')" by (rule later_dom)
qed (simp_all add: later_refl later_push later_data later_compiled later_symbols)

lemma later_history: "later q (q\<lparr>history := history q @ es\<rparr>)"
  by (simp add: later_def newEvents_def)

lemma later_setLock: "later q (setLock t q)"
  by (auto simp: later_def newEvents_def setLock_def)

lemma lock_later_locks: "lock n t q = Inr q' \<Longrightarrow> later q q' \<and> t \<in> dom (locks q')"
  by (rule lock_lawful [OF lawful_later later_history later_setLock])


lemma lock_locks: "lock n t q = Inr q' \<Longrightarrow> t \<in> dom (locks q')"
  by (simp add: lock_later_locks)

lemma carries_later: "carries later (lock n)"
  by (rule lawful_carries [OF lawful_later]) (rule lock_later_locks)

subsection \<open>The constructor's wiring is kept\<close>

lemma later_callbacks:
  "later q q' \<Longrightarrow> prefix (d_beforeLock (data q) t) (d_beforeLock (data q') t)"
  by (simp add: later_def)

lemma later_locked: "later q q' \<Longrightarrow> t \<in> dom (locks q) \<Longrightarrow> t \<in> dom (locks q')"
  using later_dom by blast

lemma wired_cong:
  assumes "wired q" "d_beforeLock (data q') = d_beforeLock (data q)" "locks q' = locks q"
  shows "wired q'"
  using assms by (simp add: wired_def)

lemma staysWired_refl: "staysWired q q"
  by (simp add: staysWired_def later_refl)

lemma staysWired_trans: "staysWired a b \<Longrightarrow> staysWired b c \<Longrightarrow> staysWired a c"
  unfolding staysWired_def by (blast intro: later_trans)

lemma staysWired_same:
  assumes "later q q'" "d_beforeLock (data q') = d_beforeLock (data q)" "locks q' = locks q"
  shows "staysWired q q'"
  using assms by (simp add: staysWired_def wired_def)

lemma staysWired_push: "locks q field = None \<Longrightarrow> staysWired q (pushBeforeLock field fn q)"
  by (simp add: staysWired_def later_push) (simp add: wired_def pushBeforeLock_def)

lemma lawful_staysWired: "lawful staysWired"
  unfolding lawful_def
proof (intro conjI allI impI)
  fix a b c assume "staysWired a b" "staysWired b c"
  then show "staysWired a c" by (rule staysWired_trans)
next
  fix q v q'
  assume a: "locks q ''limit'' = None" "staysWired (q\<lparr>data := (data q)\<lparr>d_limit := v\<rparr>\<rparr>) q'"
    "''limit'' \<in> dom (locks q')"
  from a(2) have "later (q\<lparr>data := (data q)\<lparr>d_limit := v\<rparr>\<rparr>) q'" by (simp add: staysWired_def)
  then have "later q q'" by (rule later_limit [OF a(1) _ a(3)])
  moreover have "wired q \<Longrightarrow> wired q'"
    using a(2) by (simp add: staysWired_def wired_def)
  ultimately show "staysWired q q'" by (simp add: staysWired_def)
next
  fix q v q'
  assume a: "locks q ''offset'' = None" "staysWired (q\<lparr>data := (data q)\<lparr>d_offset := v\<rparr>\<rparr>) q'"
    "''offset'' \<in> dom (locks q')"
  from a(2) have "later (q\<lparr>data := (data q)\<lparr>d_offset := v\<rparr>\<rparr>) q'" by (simp add: staysWired_def)
  then have "later q q'" by (rule later_offset [OF a(1) _ a(3)])
  moreover have "wired q \<Longrightarrow> wired q'"
    using a(2) by (simp add: staysWired_def wired_def)
  ultimately show "staysWired q q'" by (simp add: staysWired_def)
next
  fix q q' assume "staysWired q q'"
  then show "dom (locks q) \<subseteq> dom (locks q')" by (simp add: staysWired_def later_dom)
qed (simp_all add: staysWired_refl staysWired_push staysWired_same later_data later_compiled later_symbols)

lemma andThen_return [simp]: "andThen m Inr = m"
  by (cases m) simp_all

lemma call_Nil [simp]: "call lk [] = Inr"
  by (rule ext) simp

lemma call_single [simp]: "call lk [s] q = execStmt lk s q"
  by (cases "execStmt lk s q") simp_all

text \<open>A callback that is registered when the loop reaches its index has been run when the loop ends.\<close>

lemma runCallbacks_ran:
  assumes r: "carries later lk" and p: "\<And>t q q'. lk t q = Inr q' \<Longrightarrow> t \<in> dom (locks q')"
  shows "runCallbacks lk k t i q = Inr q1 \<Longrightarrow> i \<le> j \<Longrightarrow> j < length (d_beforeLock (data q) t) \<Longrightarrow>
         d_beforeLock (data q) t ! j = [Lock u] \<Longrightarrow> u \<in> dom (locks q1)"
proof (induction k arbitrary: i q)
  case 0
  then show ?case by (auto simp: throw_def split: if_splits)
next
  case (Suc k)
  let ?q0 = "q\<lparr>history := history q @ [Ran t i]\<rparr>"
  from Suc.prems have il: "i < length (d_beforeLock (data q) t)" by simp
  with Suc.prems(1) obtain q2 where
    a: "call lk (d_beforeLock (data q) t ! i) ?q0 = Inr q2"
    and b: "runCallbacks lk k t (Suc i) q2 = Inr q1"
    by (auto simp: andThen_eq_Inr)
  have l2: "later ?q0 q2" by (rule execStmt_call_keeps(2) [OF r a])
  have l3: "later q2 q1" by (rule runCallbacks_keeps [OF r later_history b])
  show ?case
  proof (cases "i = j")
    case True
    with a Suc.prems(4) have "lk u ?q0 = Inr q2" by simp
    then have "u \<in> dom (locks q2)" by (rule p)
    then show ?thesis by (rule later_locked [OF l3])
  next
    case False
    from later_callbacks [OF l2, of t] obtain zs where
      z: "d_beforeLock (data q2) t = d_beforeLock (data q) t @ zs"
      by (auto simp: prefix_def)
    have "Suc i \<le> j" using False Suc.prems(2) by simp
    moreover have "j < length (d_beforeLock (data q2) t)" using Suc.prems(3) z by simp
    moreover have "d_beforeLock (data q2) t ! j = [Lock u]"
      using Suc.prems(3,4) z by (simp add: nth_append)
    ultimately show ?thesis by (rule Suc.IH [OF b])
  qed
qed

lemma lock_staysWired: "lock n t q = Inr q' \<Longrightarrow> staysWired q q' \<and> t \<in> dom (locks q')"
proof (induction n arbitrary: t q q')
  case 0
  then show ?case by (simp add: throw_def)
next
  case (Suc n)
  have r: "carries staysWired (lock n)" by (rule lawful_carries [OF lawful_staysWired]) (rule Suc.IH)
  have h: "staysWired q (q\<lparr>history := history q @ [Ran t i]\<rparr>)" for q t i
    by (rule staysWired_same) (simp_all add: later_history)
  show ?case
  proof (cases "locks q t")
    case (Some v)
    with Suc.prems show ?thesis by (auto simp: staysWired_refl)
  next
    case None
    with Suc.prems obtain q1 where a: "runCallbacks (lock n) n t 0 q = Inr q1"
      and b: "compile (lock n) t (setLock t q1) = Inr q'"
      by (auto simp: andThen_eq_Inr)
    have 1: "staysWired q q1" by (rule runCallbacks_keeps [OF r h a])
    have 3: "staysWired (setLock t q1) q'" by (rule compile_keeps [OF r b])
    have 2: "wired (setLock t q1)" if w: "wired q"
    proof -
      from 1 w have w1: "wired q1" by (simp add: staysWired_def)
      have "''whereBound'' \<in> dom (locks q1)" if "t = ''where''"
      proof -
        from w obtain j where j: "j < length (d_beforeLock (data q) ''where'')"
          "d_beforeLock (data q) ''where'' ! j = [Lock ''whereBound'']"
          by (auto simp: wired_def whereCallback_def in_set_conv_nth)
        from a that have run: "runCallbacks (lock n) n ''where'' 0 q = Inr q1" by simp
        show ?thesis
          using runCallbacks_ran [where lk = "lock n", OF carries_later lock_locks run _ j]
          by simp
      qed
      with w1 show ?thesis by (auto simp: wired_def setLock_def)
    qed
    have "later q q'"
      using 1 3 later_setLock [of q1 t] by (auto simp: staysWired_def intro: later_trans)
    moreover have "wired q'" if "wired q"
      using 2 [OF that] 3 by (simp add: staysWired_def)
    moreover have "t \<in> dom (locks q')"
    proof -
      from 3 have "dom (locks (setLock t q1)) \<subseteq> dom (locks q')"
        by (simp add: staysWired_def later_dom)
      with setLock_locks [of t q1] show ?thesis by blast
    qed
    ultimately show ?thesis by (simp add: staysWired_def)
  qed
qed

lemma carries_staysWired: "carries staysWired (lock n)"
  by (rule lawful_carries [OF lawful_staysWired]) (rule lock_staysWired)


lemma wired_new: "wired (newQueryBuilder dev)"
  by (simp add: wired_def newQueryBuilder_def pushBeforeLock_def emptyData_def)

subsection \<open>lockEverything\<close>

lemma lockInOrder_Nil_fun: "lockInOrder lk [] = Inr"
  by (rule ext) simp

lemma lockInOrder_Cons_fun:
  "lockInOrder lk (t # ts) = (\<lambda>q. andThen (lk t q) (lockInOrder lk ts))"
  by (rule ext) simp

lemma lockEverything_lockInOrder:
  "lockEverything lk q = lockInOrder lk lockOrder (finalize' q)"
  unfolding lockEverything_def lockOrder_def lockInOrder_Cons_fun lockInOrder_Nil_fun
  by simp

lemma lockInOrder_append:
  "lockInOrder lk (ts @ us) q = andThen (lockInOrder lk ts q) (\<lambda>q'. lockInOrder lk us q')"
proof (induction ts arbitrary: q)
  case Nil
  then show ?case by simp
next
  case (Cons t ts)
  show ?case by (cases "lk t q") (simp_all add: Cons.IH)
qed

lemma lockInOrder_later:
  "lockInOrder (lock n) ts q = Inr q' \<Longrightarrow> staysWired q q' \<and> set ts \<subseteq> dom (locks q')"
proof (induction ts arbitrary: q)
  case Nil
  then show ?case by (simp add: staysWired_refl)
next
  case (Cons t ts)
  from Cons.prems obtain q1 where a: "lock n t q = Inr q1" and b: "lockInOrder (lock n) ts q1 = Inr q'"
    by (auto simp: andThen_eq_Inr)
  from lock_staysWired [OF a] have 1: "staysWired q q1" "t \<in> dom (locks q1)" by simp_all
  from Cons.IH [OF b] have 2: "staysWired q1 q'" "set ts \<subseteq> dom (locks q')" by simp_all
  from 2(1) have "later q1 q'" by (simp add: staysWired_def)
  with 1(2) have "t \<in> dom (locks q')" by (rule later_locked [rotated])
  with 1 2 show ?case by (auto intro: staysWired_trans)
qed

lemma wired_finalize [simp]: "wired (finalize' q) = wired q"
  by (simp add: wired_def finalize'_def)

lemma lockEverything_locked:
  assumes "lockEverything (lock n) q = Inr q'" "wired q"
  shows "finalized q'" and "set finalPhases \<subseteq> dom (locks q')" and "wired q'"
proof -
  from assms(1) have a: "lockInOrder (lock n) lockOrder (finalize' q) = Inr q'"
    by (simp add: lockEverything_lockInOrder)
  from lockInOrder_later [OF a] have s: "staysWired (finalize' q) q'" and d: "set lockOrder \<subseteq> dom (locks q')"
    by simp_all
  from s show "finalized q'" by (simp add: staysWired_def later_def finalize'_def)
  from s assms(2) show w: "wired q'" by (simp add: staysWired_def)
  have "''where'' \<in> set lockOrder" by (simp add: lockOrder_def)
  with d have "''where'' \<in> dom (locks q')" by blast
  with w have "''whereBound'' \<in> dom (locks q')" by (simp add: wired_def)
  with d show "set finalPhases \<subseteq> dom (locks q')" by (simp add: finalPhases_def)
qed

subsection \<open>Mutators of a locked phase\<close>

lemma alreadyLocked_checkLock:
  "t \<in> dom (locks q) \<Longrightarrow> alreadyLocked t q (andThen (checkLock t q) f)"
  by (auto simp: alreadyLocked_def)

lemma locked_mutators:
  shows "t \<in> dom (locks q) \<Longrightarrow> alreadyLocked t q (beforeLock t fn q)"
    and "''select'' \<in> dom (locks q) \<Longrightarrow> alreadyLocked ''select'' q (select g a q)"
    and "''selectCursor'' \<in> dom (locks q) \<Longrightarrow> alreadyLocked ''selectCursor'' q (selectCursor g q)"
    and "''where'' \<in> dom (locks q) \<Longrightarrow> alreadyLocked ''where'' q (where' g q)"
    and "''whereBound'' \<in> dom (locks q) \<Longrightarrow> alreadyLocked ''whereBound'' q (whereBound g (JBool b) q)"
    and "''orderBy'' \<in> dom (locks q) \<Longrightarrow> alreadyLocked ''orderBy'' q (orderBy g asc q)"
    and "''limit'' \<in> dom (locks q) \<Longrightarrow> alreadyLocked ''limit'' q (limit lk x q)"
    and "''offset'' \<in> dom (locks q) \<Longrightarrow> alreadyLocked ''offset'' q (offset lk x q)"
    and "''flip'' \<in> dom (locks q) \<Longrightarrow> alreadyLocked ''flip'' q (flip lk q)"
    and "''cursorComparator'' \<in> dom (locks q) \<Longrightarrow>
           alreadyLocked ''cursorComparator'' q (setCursorComparator lk cmp q)"
    and "''from'' \<in> dom (locks q) \<Longrightarrow> al \<noteq> Undefined \<Longrightarrow> alreadyLocked ''from'' q (from' lk e al q)"
    and "''from'' \<in> dom (locks q) \<Longrightarrow>
           alreadyLocked ''from'' (q\<lparr>symbols := Suc (symbols q)\<rparr>) (from' lk e Undefined q)"
  unfolding beforeLock_def select_def selectCursor_def where'_def whereBound_def orderBy_def
    limit_def offset_def flip_def setCursorComparator_def from'_def
  by (auto simp: alreadyLocked_def split: jsarg.splits)

subsection \<open>A new builder, finalized\<close>

lemmas new_defs = newQueryBuilder_def pushBeforeLock_def emptyData_def emptyCompiledData_def
  selectCallback_def whereCallback_def

lemmas run_defs = lockEverything_def finalize'_def compile_def setLock_def Let_def
  select_def

lemma lockEverything_new:
  "\<exists>q'. lockEverything (lock (Suc (Suc n))) (newQueryBuilder dev) = Inr q' \<and>
     locks q' ''orderIsUnique'' = None \<and> locks q' ''cursorPrefix'' = None \<and>
     data q' = data (newQueryBuilder dev) \<and> compiledData q' = emptyCompiledData \<and>
     symbols q' = 0 \<and>
     history q' = [Locked ''from'', Locked ''flip'', Locked ''join'', Locked ''offset'',
       Locked ''limit'', Locked ''orderBy'', Locked ''cursorComparator'',
       Ran ''where'' 0, Locked ''whereBound'', Locked ''where'',
       Locked ''selectCursor'', Ran ''select'' 0, Locked ''select'']"
  by (simp add: new_defs run_defs)

subsection \<open>After finalization\<close>

text \<open>
  C4 (as amended). After \<open>lockEverything\<close> has returned on a builder with the constructor's
  wiring, \<open>finalized\<close> is set and the eleven phases it locks are locked; \<open>beforeLock\<close> on
  any of them, \<open>select\<close>, \<open>selectCursor\<close>, \<open>where\<close>, \<open>whereBound\<close>, \<open>orderBy\<close>,
  \<open>limit\<close>, \<open>offset\<close>, \<open>flip\<close> and \<open>setCursorComparator\<close> throw the already-locked error
  and leave the builder as it is, and \<open>from\<close> throws the already-locked error.
\<close>

theorem mutators_after_lockEverything:
  assumes "lockEverything (lock n) q = Inr q'" and "wired q"
  shows "finalized q' \<and> set finalPhases \<subseteq> dom (locks q') \<and>
     (\<forall>t \<in> set finalPhases. \<forall>fn. alreadyLocked t q' (beforeLock t fn q')) \<and>
     (\<forall>g a. alreadyLocked ''select'' q' (select g a q')) \<and>
     (\<forall>g. alreadyLocked ''selectCursor'' q' (selectCursor g q')) \<and>
     (\<forall>g. alreadyLocked ''where'' q' (where' g q')) \<and>
     (\<forall>g b. alreadyLocked ''whereBound'' q' (whereBound g (JBool b) q')) \<and>
     (\<forall>g asc. alreadyLocked ''orderBy'' q' (orderBy g asc q')) \<and>
     (\<forall>lk x. alreadyLocked ''limit'' q' (limit lk x q')) \<and>
     (\<forall>lk x. alreadyLocked ''offset'' q' (offset lk x q')) \<and>
     (\<forall>lk. alreadyLocked ''flip'' q' (flip lk q')) \<and>
     (\<forall>lk cmp. alreadyLocked ''cursorComparator'' q' (setCursorComparator lk cmp q')) \<and>
     (\<forall>lk e al. \<exists>l. thrown (from' lk e al q') = Some (AlreadyLocked ''from'' l))"
proof -
  note l = lockEverything_locked [OF assms]
  have m: "t \<in> dom (locks q')" if "t \<in> set finalPhases" for t
    using l(2) that by blast
  have ms: "''select'' \<in> dom (locks q')" "''selectCursor'' \<in> dom (locks q')"
    "''where'' \<in> dom (locks q')" "''whereBound'' \<in> dom (locks q')"
    "''orderBy'' \<in> dom (locks q')" "''limit'' \<in> dom (locks q')" "''offset'' \<in> dom (locks q')"
    "''flip'' \<in> dom (locks q')" "''cursorComparator'' \<in> dom (locks q')" "''from'' \<in> dom (locks q')"
    by (rule m, simp add: finalPhases_def lockOrder_def)+
  have f: "\<exists>l. thrown (from' lk e al q') = Some (AlreadyLocked ''from'' l)" for lk e al
  proof (cases "al = Undefined")
    case True
    with locked_mutators(12) [OF ms(10), of lk e] show ?thesis
      by (auto simp: alreadyLocked_def thrown_def)
  next
    case False
    with locked_mutators(11) [OF ms(10), of al lk e] show ?thesis
      by (auto simp: alreadyLocked_def thrown_def)
  qed
  show ?thesis
    using l(1) l(2) f
    by (intro conjI ballI allI)
      (simp_all add: locked_mutators(1) [OF m] locked_mutators(2) [OF ms(1)]
        locked_mutators(3) [OF ms(2)] locked_mutators(4) [OF ms(3)] locked_mutators(5) [OF ms(4)]
        locked_mutators(6) [OF ms(5)] locked_mutators(7) [OF ms(6)] locked_mutators(8) [OF ms(7)]
        locked_mutators(9) [OF ms(8)] locked_mutators(10) [OF ms(9)])
qed

theorem mutators_after_lockEverything_witness:
  "\<exists>q'. lockEverything (lock 2) (newQueryBuilder False) = Inr q' \<and> finalized q' \<and>
     alreadyLocked ''limit'' q' (limit (lock 2) (Fin 5) q') \<and>
     alreadyLocked ''select'' q' (select (Val (Fragment [Txt ''id''])) (AStr ''id'') q') \<and>
     alreadyLocked ''whereBound'' q'
       (beforeLock ''whereBound'' [Where (Val (Fragment [Txt ''true'']))] q')"
proof -
  from lockEverything_new [of 0 False] obtain q' where
    e: "lockEverything (lock 2) (newQueryBuilder False) = Inr q'"
    by (auto simp: numeral_2_eq_2)
  note t = mutators_after_lockEverything [OF e wired_new]
  have w: "''whereBound'' \<in> set finalPhases" by (simp add: finalPhases_def)
  from t have 1: "finalized q'" by simp
  from t have 2: "alreadyLocked ''limit'' q' (limit (lock 2) (Fin 5) q')" by simp
  from t have 3: "alreadyLocked ''select'' q' (select (Val (Fragment [Txt ''id''])) (AStr ''id'') q')"
    by simp
  from t have "\<forall>t \<in> set finalPhases. \<forall>fn. alreadyLocked t q' (beforeLock t fn q')" by simp
  from this w have "\<forall>fn. alreadyLocked ''whereBound'' q' (beforeLock ''whereBound'' fn q')"
    by (rule bspec)
  then have 4: "alreadyLocked ''whereBound'' q'
      (beforeLock ''whereBound'' [Where (Val (Fragment [Txt ''true'']))] q')"
    by (rule spec)
  from e 1 2 3 4 show ?thesis by (intro exI [of _ q'] conjI)
qed

text \<open>
  After \<open>lockEverything\<close> on a new builder, \<open>beforeLock("orderIsUnique", fn)\<close> returns
  normally and registers \<open>fn\<close>: the phase \<open>orderIsUnique\<close> is not among those that
  finalization locks, and nothing reads \<open>finalized\<close>.
\<close>

theorem mutator_after_lockEverything_succeeds:
  "(case lockEverything (lock 2) (newQueryBuilder False) of
      Inl _ \<Rightarrow> False
    | Inr q \<Rightarrow>
        finalized q \<and> d_beforeLock (data q) ''orderIsUnique'' = [] \<and>
        (case beforeLock ''orderIsUnique'' [SetOrderIsUnique] q of
           Inl _ \<Rightarrow> False
         | Inr q' \<Rightarrow> d_beforeLock (data q') ''orderIsUnique'' = [[SetOrderIsUnique]]))"
proof -
  from lockEverything_new [of 0 False] obtain q where
    e: "lockEverything (lock 2) (newQueryBuilder False) = Inr q"
    and u: "locks q ''orderIsUnique'' = None" and d: "data q = data (newQueryBuilder False)"
    by (auto simp: numeral_2_eq_2)
  from lockEverything_locked(1) [OF e wired_new] have "finalized q" .
  then have "(case Inr q :: QueryBuilder result of
      Inl _ \<Rightarrow> False
    | Inr q \<Rightarrow>
        finalized q \<and> d_beforeLock (data q) ''orderIsUnique'' = [] \<and>
        (case beforeLock ''orderIsUnique'' [SetOrderIsUnique] q of
           Inl _ \<Rightarrow> False
         | Inr q' \<Rightarrow> d_beforeLock (data q') ''orderIsUnique'' = [[SetOrderIsUnique]]))"
    using u by (simp add: d beforeLock_def new_defs)
  then show ?thesis by (simp only: e)
qed

subsection \<open>The order of finalization\<close>

lemma later_newEvents:
  "later a b \<Longrightarrow> later b c \<Longrightarrow> newEvents a c = newEvents a b @ newEvents b c"
  by (rule newEvents_append) (simp_all add: later_def)

lemma later_newLock:
  "later q q' \<Longrightarrow> t \<in> dom (locks q') \<Longrightarrow> t \<in> dom (locks q) \<or> Locked t \<in> set (newEvents q q')"
  by (simp add: later_def)

lemma newEvents_setLock [simp]: "newEvents q (setLock t q) = [Locked t]"
  by (simp add: newEvents_def setLock_def)

lemma lock_where_first_whereBound:
  assumes w: "wired q" and u: "''where'' \<notin> dom (locks q)" and l: "lock n ''where'' q = Inr q'"
  shows "\<exists>es1 es2. newEvents q q' = es1 @ Locked ''where'' # es2 \<and>
           (''whereBound'' \<in> dom (locks q) \<or> Locked ''whereBound'' \<in> set es1)"
proof (cases n)
  case 0
  with l show ?thesis by (simp add: throw_def)
next
  case (Suc m)
  from u have "locks q ''where'' = None" by (simp add: domIff)
  with l Suc obtain q1 where a: "runCallbacks (lock m) m ''where'' 0 q = Inr q1"
    and b: "compile (lock m) ''where'' (setLock ''where'' q1) = Inr q'"
    by (auto simp: andThen_eq_Inr)
  from w obtain j where j: "j < length (d_beforeLock (data q) ''where'')"
    "d_beforeLock (data q) ''where'' ! j = [Lock ''whereBound'']"
    by (auto simp: wired_def whereCallback_def in_set_conv_nth)
  have wb: "''whereBound'' \<in> dom (locks q1)"
    using runCallbacks_ran [where lk = "lock m", OF carries_later lock_locks a _ j] by simp
  have 1: "later q q1" by (rule runCallbacks_keeps [OF carries_later later_history a])
  have 2: "later q1 (setLock ''where'' q1)" by (rule later_setLock)
  have 3: "later (setLock ''where'' q1) q'" by (rule compile_keeps [OF carries_later b])
  have "newEvents q q' = newEvents q q1 @ Locked ''where'' # newEvents (setLock ''where'' q1) q'"
    using later_newEvents [OF 1 later_trans [OF 2 3]] later_newEvents [OF 2 3] by simp
  moreover have "''whereBound'' \<in> dom (locks q) \<or> Locked ''whereBound'' \<in> set (newEvents q q1)"
    by (rule later_newLock [OF 1 wb])
  ultimately show ?thesis by blast
qed

lemma lockInOrder_split:
  assumes "lockInOrder (lock n) ts q = Inr q'"
  shows "\<exists>qi. lockInOrder (lock n) (take i ts) q = Inr qi \<and>
           lockInOrder (lock n) (drop i ts) qi = Inr q' \<and> set (take i ts) \<subseteq> dom (locks qi)"
proof -
  from assms have "lockInOrder (lock n) (take i ts @ drop i ts) q = Inr q'" by simp
  then obtain qi where a: "lockInOrder (lock n) (take i ts) q = Inr qi"
    and b: "lockInOrder (lock n) (drop i ts) qi = Inr q'"
    unfolding lockInOrder_append by (auto simp: andThen_eq_Inr)
  from lockInOrder_later [OF a] have "set (take i ts) \<subseteq> dom (locks qi)" by simp
  with a b show ?thesis by blast
qed

text \<open>
  C3. \<open>lockEverything\<close> sets \<open>finalized\<close> and then locks the phases of the spec's order
  one after the other, whatever the state of the builder; when it calls \<open>lock\<close> for the
  \<open>i\<close>-th phase of the order, the phases before it are locked; and \<open>lock("where")\<close> on
  a builder with the constructor's wiring has \<open>whereBound\<close> locked before it marks \<open>where\<close>
  as locked.
\<close>

theorem lockEverything_fixed_order:
  "lockEverything (lock n) q = lockInOrder (lock n) lockOrder (finalize' q) \<and>
   (lockEverything (lock n) q = Inr q' \<longrightarrow>
      (\<forall>i. \<exists>qi. lockInOrder (lock n) (take i lockOrder) (finalize' q) = Inr qi \<and>
          lockInOrder (lock n) (drop i lockOrder) qi = Inr q' \<and>
          set (take i lockOrder) \<subseteq> dom (locks qi))) \<and>
   (wired q \<longrightarrow> ''where'' \<notin> dom (locks q) \<longrightarrow> lock n ''where'' q = Inr q'' \<longrightarrow>
      (\<exists>es1 es2. newEvents q q'' = es1 @ Locked ''where'' # es2 \<and>
          (''whereBound'' \<in> dom (locks q) \<or> Locked ''whereBound'' \<in> set es1)))"
proof (intro conjI impI allI)
  show "lockEverything (lock n) q = lockInOrder (lock n) lockOrder (finalize' q)"
    by (rule lockEverything_lockInOrder)
next
  fix i assume "lockEverything (lock n) q = Inr q'"
  then have "lockInOrder (lock n) lockOrder (finalize' q) = Inr q'"
    by (simp add: lockEverything_lockInOrder)
  then show "\<exists>qi. lockInOrder (lock n) (take i lockOrder) (finalize' q) = Inr qi \<and>
          lockInOrder (lock n) (drop i lockOrder) qi = Inr q' \<and>
          set (take i lockOrder) \<subseteq> dom (locks qi)"
    by (rule lockInOrder_split)
next
  assume "wired q" "''where'' \<notin> dom (locks q)" "lock n ''where'' q = Inr q''"
  then show "\<exists>es1 es2. newEvents q q'' = es1 @ Locked ''where'' # es2 \<and>
          (''whereBound'' \<in> dom (locks q) \<or> Locked ''whereBound'' \<in> set es1)"
    by (rule lock_where_first_whereBound)
qed

theorem lockEverything_fixed_order_witness:
  "\<exists>q' q''. lockEverything (lock 2) (newQueryBuilder False) = Inr q' \<and>
     lockInOrder (lock 2) lockOrder (finalize' (newQueryBuilder False)) = Inr q' \<and>
     (\<exists>qi. lockInOrder (lock 2) (take 7 lockOrder) (finalize' (newQueryBuilder False)) = Inr qi \<and>
        lockInOrder (lock 2) (drop 7 lockOrder) qi = Inr q' \<and>
        set (take 7 lockOrder) \<subseteq> dom (locks qi)) \<and>
     history q' = [Locked ''from'', Locked ''flip'', Locked ''join'', Locked ''offset'',
       Locked ''limit'', Locked ''orderBy'', Locked ''cursorComparator'',
       Ran ''where'' 0, Locked ''whereBound'', Locked ''where'',
       Locked ''selectCursor'', Ran ''select'' 0, Locked ''select''] \<and>
     wired (newQueryBuilder False) \<and> ''where'' \<notin> dom (locks (newQueryBuilder False)) \<and>
     lock 2 ''where'' (newQueryBuilder False) = Inr q'' \<and>
     (\<exists>es1 es2. newEvents (newQueryBuilder False) q'' = es1 @ Locked ''where'' # es2 \<and>
        (''whereBound'' \<in> dom (locks (newQueryBuilder False)) \<or> Locked ''whereBound'' \<in> set es1))"
proof -
  from lockEverything_new [of 0 False] obtain q' where
    e: "lockEverything (lock 2) (newQueryBuilder False) = Inr q'"
    and h: "history q' = [Locked ''from'', Locked ''flip'', Locked ''join'', Locked ''offset'',
       Locked ''limit'', Locked ''orderBy'', Locked ''cursorComparator'',
       Ran ''where'' 0, Locked ''whereBound'', Locked ''where'',
       Locked ''selectCursor'', Ran ''select'' 0, Locked ''select'']"
    by (auto simp: numeral_2_eq_2)
  have "\<exists>q''. lock (Suc (Suc 0)) ''where'' (newQueryBuilder False) = Inr q''"
    by (simp add: new_defs run_defs)
  then obtain q'' where l: "lock 2 ''where'' (newQueryBuilder False) = Inr q''"
    by (auto simp: numeral_2_eq_2)
  have u: "''where'' \<notin> dom (locks (newQueryBuilder False))"
    by (simp add: new_defs)
  note t = lockEverything_fixed_order [of 2 "newQueryBuilder False" q' q'']
  from t e have 1: "lockInOrder (lock 2) lockOrder (finalize' (newQueryBuilder False)) = Inr q'"
    by simp
  from t e have 2: "\<exists>qi. lockInOrder (lock 2) (take 7 lockOrder) (finalize' (newQueryBuilder False)) = Inr qi \<and>
        lockInOrder (lock 2) (drop 7 lockOrder) qi = Inr q' \<and>
        set (take 7 lockOrder) \<subseteq> dom (locks qi)"
    by blast
  from t wired_new [of False] u l have 3:
    "\<exists>es1 es2. newEvents (newQueryBuilder False) q'' = es1 @ Locked ''where'' # es2 \<and>
        (''whereBound'' \<in> dom (locks (newQueryBuilder False)) \<or> Locked ''whereBound'' \<in> set es1)"
    by blast
  show ?thesis
    by (rule exI [of _ q'], rule exI [of _ q''], intro conjI) (rule e 1 2 h wired_new u l 3)+
qed

subsection \<open>The where clause\<close>

lemma lock_noop: "t \<in> dom (locks q) \<Longrightarrow> lock (Suc n) t q = Inr q"
  by (auto simp: domIff)

lemma lock_Inr_Suc: "lock n t q = Inr q' \<Longrightarrow> \<exists>m. n = Suc m"
  by (cases n) (simp_all add: throw_def)

lemma lock_again:
  "lock n t q = Inr q1 \<Longrightarrow> u \<in> dom (locks q) \<Longrightarrow> lock n u q = Inr q"
  by (auto dest!: lock_Inr_Suc simp: lock_noop)

lemma getTableAlias_locked:
  "''from'' \<in> dom (locks q) \<Longrightarrow>
   getTableAlias (lock (Suc n)) q =
     (case c_from (compiledData q) of
        None \<Rightarrow> Inl (NoFromTableSupplied, q)
      | Some f \<Rightarrow> Inr (snd f, q))"
  by (simp add: getTableAlias_def lock_noop throw_def del: lock.simps split: option.splits)

lemma buildWhereBoundClause_locked:
  "''whereBound'' \<in> dom (locks q) \<Longrightarrow>
   buildWhereBoundClause (lock (Suc n)) isLower q =
     Inr (boundClause (if isLower then c_whereBound_lower (compiledData q)
                       else c_whereBound_upper (compiledData q)), q)"
  by (simp add: buildWhereBoundClause_def lock_noop boundClause_def andClauses_def Let_def del: lock.simps)


lemma buildWhereClause_locked:
  assumes w: "''where'' \<in> dom (locks q)" and wb: "''whereBound'' \<in> dom (locks q)"
  shows "buildWhereClause (lock (Suc n)) incL incU False q =
     Inr (allOf (whereClauses incL incU False (compiledData q)), q)"
  unfolding buildWhereClause_def
  by (simp add: lock_noop [OF w] buildWhereBoundClause_locked [OF wb] whereClauses_def
      allOf_def andClauses_def Let_def del: lock.simps)

lemma buildWhereClause_locked_nullCase:
  assumes w: "''where'' \<in> dom (locks q)" and wb: "''whereBound'' \<in> dom (locks q)"
    and f: "''from'' \<in> dom (locks q)"
  shows "buildWhereClause (lock (Suc n)) incL incU True q =
     (if c_from (compiledData q) = None then Inl (NoFromTableSupplied, q)
      else Inr (allOf (whereClauses incL incU True (compiledData q)), q))"
  unfolding buildWhereClause_def
  by (auto simp add: lock_noop [OF w] getTableAlias_locked [OF f]
      buildWhereBoundClause_locked [OF wb] whereClauses_def nullGuard_def allOf_def andClauses_def Let_def
      simp del: lock.simps)


subsection \<open>build on a finalized builder\<close>

lemma finalize_finalized: "finalized q \<Longrightarrow> finalize' q = q"
  by (simp add: finalize'_def)

lemma lockInOrder_noop:
  "set ts \<subseteq> dom (locks q) \<Longrightarrow> lockInOrder (lock (Suc n)) ts q = Inr q"
  by (induction ts) (simp_all add: lock_noop del: lock.simps)

lemma lockEverything_noop:
  assumes "finalized q" "set finalPhases \<subseteq> dom (locks q)"
  shows "lockEverything (lock (Suc n)) q = Inr q"
proof -
  from assms(2) have "set lockOrder \<subseteq> dom (locks q)" by (simp add: finalPhases_def)
  then show ?thesis
    by (simp add: lockEverything_lockInOrder finalize_finalized [OF assms(1)] lockInOrder_noop
        del: lock.simps)
qed

lemma buildSelectFields_finalized:
  assumes "finalized q" "set finalPhases \<subseteq> dom (locks q)"
  shows "buildSelectFields (lock (Suc n)) q =
     Inr (Join (map selectField (c_select (compiledData q))) '', '', q)"
  by (simp add: buildSelectFields_def lockEverything_noop [OF assms] del: lock.simps)

lemma buildSelectJson_finalized:
  assumes "finalized q" "set finalPhases \<subseteq> dom (locks q)"
  shows "buildSelectJson (lock (Suc n)) nullCase q =
     (if (nullCase \<or> c_select (compiledData q) = []) \<and> c_from (compiledData q) = None
      then Inl (NoFromTableSupplied, q)
      else Inr (selectJson nullCase (compiledData q), q))"
proof -
  from assms(2) have f: "''from'' \<in> dom (locks q)"
    by (simp add: finalPhases_def lockOrder_def)
  show ?thesis
    by (auto simp add: buildSelectJson_def lockEverything_noop [OF assms]
        getTableAlias_locked [OF f] selectJson_def jsonObject_def nullCaseWrap_def
        simp del: lock.simps)
qed

lemma build_finalized:
  assumes "finalized q" "set finalPhases \<subseteq> dom (locks q)"
  shows "build (lock (Suc n)) options q = assembled options q"
proof -
  from assms(2) have f: "''from'' \<in> dom (locks q)" and w: "''where'' \<in> dom (locks q)"
    and wb: "''whereBound'' \<in> dom (locks q)"
    by (simp_all add: finalPhases_def lockOrder_def)
  note simps = lockEverything_noop [OF assms] buildSelectJson_finalized [OF assms]
    buildSelectFields_finalized [OF assms] getTableAlias_locked [OF f]
    buildWhereClause_locked [OF w wb] buildWhereClause_locked_nullCase [OF w wb f]
  show ?thesis
  proof (cases "addNullCase options")
    case True
    then show ?thesis
      unfolding build_def assembled_def
      by (auto simp add: simps needsAlias_def Let_def fieldsOf_def selectPieces_def wrapped_def
          symbolsUsed_def fromPiece_def simp del: lock.simps split: option.splits)
  next
    case False
    then show ?thesis
      unfolding build_def assembled_def
      by (auto simp add: simps needsAlias_def Let_def fieldsOf_def selectPieces_def wrapped_def
          symbolsUsed_def fromPiece_def simp del: lock.simps split: option.splits)
  qed
qed

lemma build_eq:
  assumes w: "wired q"
  shows "build (lock n) options q = andThen (lockEverything (lock n) q) (assembled options)"
proof (cases "lockEverything (lock n) q")
  case (Inl e)
  then show ?thesis by (simp add: build_def)
next
  case (Inr q1)
  then have "lockInOrder (lock n) lockOrder (finalize' q) = Inr q1"
    by (simp add: lockEverything_lockInOrder)
  then obtain qa where "lock n ''from'' (finalize' q) = Inr qa"
    by (auto simp: lockOrder_def andThen_eq_Inr)
  then obtain m where n: "n = Suc m" by (auto dest: lock_Inr_Suc)
  note l = lockEverything_locked [OF Inr w]
  have "build (lock (Suc m)) options q1 = assembled options q1"
    by (rule build_finalized [OF l(1) l(2)])
  moreover have "build (lock n) options q1 = build (lock n) options q"
    using Inr lockEverything_noop [OF l(1) l(2), of m]
    unfolding build_def n by (simp del: lock.simps)
  ultimately show ?thesis using Inr n by simp
qed

subsection \<open>A caller's program of plain registrations\<close>




lemma callIfNecessaryArray_vals [simp]: "callIfNecessaryArray lk (map Val ps) q = Inr (ps, q)"
  by (induction ps) (simp_all add: callIfNecessary_def)

lemma callIfNecessaryPairs_vals [simp]:
  "callIfNecessaryPairs lk (map (\<lambda>(e, b). (Val e, b)) es) q = Inr (es, q)"
  by (induction es) (auto simp: callIfNecessary_def)










subsection \<open>The compiled where clause\<close>



subsection \<open>LIMIT and OFFSET\<close>

lemma build_result:
  assumes w: "wired q" and b: "build (lock n) options q = Inr (s, q')"
    and o: "\<not> onlyJsonField options"
  shows "\<exists>q1. lockEverything (lock n) q = Inr q1 \<and> compiledData q' = compiledData q1 \<and>
           s = wrapped options q1 (Fragment (selectPieces options (compiledData q')))"
proof -
  from b obtain q1 where l: "lockEverything (lock n) q = Inr q1"
    and a: "assembled options q1 = Inr (s, q')"
    unfolding build_eq [OF w] by (auto simp: andThen_eq_Inr)
  from a o have "compiledData q' = compiledData q1"
    "s = wrapped options q1 (Fragment (selectPieces options (compiledData q1)))"
    by (auto simp: assembled_def split: if_splits)
  with l show ?thesis by simp
qed

lemma isSafeInteger_Some: "isSafeInteger x \<Longrightarrow> \<exists>r. x = Some (Fin r)"
  by (cases x rule: isSafeInteger.cases) simp_all

lemma limitPiece_eq:
  "limitPiece c = limitClause l \<longleftrightarrow> isSafeInteger (c_limit c) \<and> c_limit c = Some l"
  by (auto simp: limitPiece_def limitClause_def dest: isSafeInteger_Some)

lemma offsetPiece_eq:
  "offsetPiece c = offsetClause off \<longleftrightarrow> c_offset c = Some off \<and> truthy (JNum off)"
  by (auto simp: offsetPiece_def offsetClause_def split: option.splits)

lemma other_pieces:
  "limitClause l \<noteq> Txt x" "offsetClause off \<noteq> Txt x"
  "limitClause l \<noteq> Emb (fieldsOf options c)" "offsetClause off \<noteq> Emb (fieldsOf options c)"
  "limitClause l \<noteq> fromPiece c" "offsetClause off \<noteq> fromPiece c"
  "limitClause l \<noteq> joinPiece c" "offsetClause off \<noteq> joinPiece c"
  "limitClause l \<noteq> Emb (allOf xs)" "offsetClause off \<noteq> Emb (allOf xs)"
  "limitClause l \<noteq> orderByPiece c" "offsetClause off \<noteq> orderByPiece c"
  "offsetClause off \<noteq> limitPiece c" "limitClause l \<noteq> offsetPiece c"
  by (auto simp: limitClause_def offsetClause_def fieldsOf_def fromPiece_def joinPiece_def
      allOf_def andClauses_def orderByPiece_def limitPiece_def offsetPiece_def
      split: option.splits if_splits)

lemma limitClause_emitted:
  "limitClause l \<in> set (selectPieces options c) \<longleftrightarrow> isSafeInteger (c_limit c) \<and> c_limit c = Some l"
proof -
  have "limitClause l \<in> set (selectPieces options c) \<longleftrightarrow> limitClause l = limitPiece c"
    by (simp add: selectPieces_def other_pieces)
  then show ?thesis using limitPiece_eq [of c l] by auto
qed

lemma offsetClause_emitted:
  "offsetClause off \<in> set (selectPieces options c) \<longleftrightarrow> c_offset c = Some off \<and> truthy (JNum off)"
proof -
  have "offsetClause off \<in> set (selectPieces options c) \<longleftrightarrow> offsetClause off = offsetPiece c"
    by (simp add: selectPieces_def other_pieces)
  then show ?thesis using offsetPiece_eq [of c off] by auto
qed

lemma safe_nonzero_truthy: "isSafeInteger (Some off) \<Longrightarrow> off \<noteq> Fin 0 \<Longrightarrow> truthy (JNum off)"
  by (cases off) auto


lemmas build_defs = build_def buildSelectFields_def buildSelectJson_def buildWhereClause_def
  buildWhereBoundClause_def getTableAlias_def andClauses_def selectField_def jsonField_def
  joinPiece_def orderByPiece_def limitPiece_def offsetPiece_def defaultOptions_def
  limit_def offset_def flip_def from'_def orderBy_def where'_def

text \<open>
  C7 (as amended). In the query that \<open>build\<close> assembles (other than in the
  \<open>onlyJsonField\<close> mode), a LIMIT clause is emitted exactly when the compiled limit is a
  safe integer; an OFFSET clause is emitted when the compiled offset is a safe integer
  other than zero, and none is emitted when the offset is unset, zero or \<open>NaN\<close>.
\<close>

theorem limit_offset_clauses:
  assumes "wired q" and "build (lock n) options q = Inr (s, q')" and "\<not> onlyJsonField options"
  shows "(\<exists>q1. lockEverything (lock n) q = Inr q1 \<and> compiledData q' = compiledData q1 \<and>
            s = wrapped options q1 (Fragment (selectPieces options (compiledData q')))) \<and>
     (\<forall>l. limitClause l \<in> set (selectPieces options (compiledData q')) \<longleftrightarrow>
            isSafeInteger (c_limit (compiledData q')) \<and> c_limit (compiledData q') = Some l) \<and>
     (\<forall>off. c_offset (compiledData q') = Some off \<longrightarrow> isSafeInteger (Some off) \<longrightarrow> off \<noteq> Fin 0 \<longrightarrow>
            offsetClause off \<in> set (selectPieces options (compiledData q'))) \<and>
     (c_offset (compiledData q') = None \<or> c_offset (compiledData q') = Some (Fin 0) \<or>
        c_offset (compiledData q') = Some NaN \<longrightarrow>
        (\<forall>off. offsetClause off \<notin> set (selectPieces options (compiledData q'))))"
proof (intro conjI allI impI)
  show "\<exists>q1. lockEverything (lock n) q = Inr q1 \<and> compiledData q' = compiledData q1 \<and>
            s = wrapped options q1 (Fragment (selectPieces options (compiledData q')))"
    by (rule build_result [OF assms])
next
  fix l
  show "limitClause l \<in> set (selectPieces options (compiledData q')) \<longleftrightarrow>
            isSafeInteger (c_limit (compiledData q')) \<and> c_limit (compiledData q') = Some l"
    by (rule limitClause_emitted)
next
  fix off
  assume "c_offset (compiledData q') = Some off" "isSafeInteger (Some off)" "off \<noteq> Fin 0"
  then show "offsetClause off \<in> set (selectPieces options (compiledData q'))"
    by (simp add: offsetClause_emitted safe_nonzero_truthy)
next
  fix off
  assume "c_offset (compiledData q') = None \<or> c_offset (compiledData q') = Some (Fin 0) \<or>
        c_offset (compiledData q') = Some NaN"
  then show "offsetClause off \<notin> set (selectPieces options (compiledData q'))"
    by (auto simp: offsetClause_emitted)
qed

theorem limit_offset_clauses_witness:
  "\<exists>q s q'. andThen (limit (lock 2) (Fin 2) (newQueryBuilder False)) (offset (lock 2) (Fin 3)) = Inr q \<and>
     wired q \<and> build (lock 2) defaultOptions q = Inr (s, q') \<and> \<not> onlyJsonField defaultOptions \<and>
     c_limit (compiledData q') = Some (Fin 2) \<and> c_offset (compiledData q') = Some (Fin 3) \<and>
     limitClause (Fin 2) \<in> set (selectPieces defaultOptions (compiledData q')) \<and>
     offsetClause (Fin 3) \<in> set (selectPieces defaultOptions (compiledData q'))"
proof -
  have "\<exists>q. andThen (limit (lock (Suc (Suc 0))) (Fin 2) (newQueryBuilder False))
            (offset (lock (Suc (Suc 0))) (Fin 3)) = Inr q \<and>
          wired q \<and> (\<exists>s q'. build (lock (Suc (Suc 0))) defaultOptions q = Inr (s, q') \<and>
            c_limit (compiledData q') = Some (Fin 2) \<and> c_offset (compiledData q') = Some (Fin 3))"
    by (simp add: new_defs run_defs build_defs wired_def)
  then obtain q s q' where
    a: "andThen (limit (lock 2) (Fin 2) (newQueryBuilder False)) (offset (lock 2) (Fin 3)) = Inr q"
    and w: "wired q" and b: "build (lock 2) defaultOptions q = Inr (s, q')"
    and c: "c_limit (compiledData q') = Some (Fin 2)" "c_offset (compiledData q') = Some (Fin 3)"
    by (auto simp: numeral_2_eq_2)
  have o: "\<not> onlyJsonField defaultOptions" by (simp add: defaultOptions_def)
  note t = limit_offset_clauses [OF w b o]
  from t have "limitClause (Fin 2) \<in> set (selectPieces defaultOptions (compiledData q')) \<longleftrightarrow>
            isSafeInteger (c_limit (compiledData q')) \<and> c_limit (compiledData q') = Some (Fin 2)"
    by blast
  then have 1: "limitClause (Fin 2) \<in> set (selectPieces defaultOptions (compiledData q'))"
    by (simp add: c)
  from t have "c_offset (compiledData q') = Some (Fin 3) \<longrightarrow> isSafeInteger (Some (Fin 3)) \<longrightarrow>
      Fin 3 \<noteq> Fin 0 \<longrightarrow> offsetClause (Fin 3) \<in> set (selectPieces defaultOptions (compiledData q'))"
    by blast
  then have 2: "offsetClause (Fin 3) \<in> set (selectPieces defaultOptions (compiledData q'))"
    by (simp add: c)
  show ?thesis
    by (rule exI [of _ q], rule exI [of _ s], rule exI [of _ q'], intro conjI)
      (rule a w b o c 1 2)+
qed

text \<open>
  On a new builder, \<open>offset(0)\<close> and then \<open>build()\<close>: the compiled offset is \<open>0\<close>, a
  non-negative safe integer, and the hole of the OFFSET clause holds the number \<open>0\<close>
  instead of a clause.
\<close>

theorem offset_zero_emits_no_clause:
  "(case andThen (offset (lock 2) (Fin 0) (newQueryBuilder False)) (build (lock 2) defaultOptions) of
      Inl _ \<Rightarrow> False
    | Inr (s, q') \<Rightarrow>
        c_offset (compiledData q') = Some (Fin 0) \<and> isSafeInteger (Some (Fin 0)) \<and>
        \<not> isNegative (Fin 0) \<and>
        s = Fragment [Txt ''\<newline>      select '', Emb (Join [] '', ''),
              Txt ''\<newline>      '', EmbVal JNull,
              Txt ''\<newline>      '', EmbVal (JNum (Fin 0)),
              Txt ''\<newline>      where '',
              Emb (Fragment [Txt ''('',
                Emb (Join [Literal (JBool True), Literal (JBool True)] '') and (''), Txt '')'']),
              Txt ''\<newline>      '', EmbVal (JStr []),
              Txt ''\<newline>      '', EmbVal (JBool False),
              Txt ''\<newline>      '', EmbVal (JNum (Fin 0)),
              Txt ''\<newline>    ''])"
  by (simp add: numeral_2_eq_2 new_defs run_defs build_defs)

subsection \<open>ORDER BY and flip\<close>









subsection \<open>build without a from source\<close>

lemma selectPieces_from: "selectPieces options c ! 3 = fromPiece c"
  by (simp add: selectPieces_def)

lemma build_throws_early:
  "lockEverything lk q = Inl e \<Longrightarrow> build lk options q = Inl e"
  by (simp add: build_def)

text \<open>
  C8 (as amended). \<open>build\<close> first finalizes the builder, and an error thrown there (by a
  callback or by an expression generator) is the error of \<open>build\<close>. When finalization
  returns without a compiled from source, \<open>build\<close> throws "No from table has been
  supplied" exactly when it needs the table alias: when \<open>addNullCase\<close> is set, or when a
  JSON shape is asked for (\<open>asJson\<close>, \<open>asJsonAggregate\<close> or \<open>onlyJsonField\<close>) and
  nothing was selected; otherwise it returns, and the FROM hole of the select statement
  holds \<open>null\<close> instead of a clause. When finalization returns with a compiled from
  source, \<open>build\<close> returns and the FROM hole holds \<open>from <source> as <alias>\<close>. \<open>from\<close>
  itself throws when its expression is missing or its alias is \<open>null\<close>.
\<close>

theorem build_without_from:
  "(wired q \<longrightarrow> lockEverything (lock n) q = Inr qf \<longrightarrow>
      (c_from (compiledData qf) = None \<and>
       (addNullCase options \<or>
        (asJson options \<or> asJsonAggregate options \<or> onlyJsonField options) \<and>
        c_select (compiledData qf) = []) \<longrightarrow>
         build (lock n) options q = Inl (NoFromTableSupplied, qf)) \<and>
      (\<not> (c_from (compiledData qf) = None \<and>
          (addNullCase options \<or>
           (asJson options \<or> asJsonAggregate options \<or> onlyJsonField options) \<and>
           c_select (compiledData qf) = [])) \<longrightarrow>
         (\<exists>s q'. build (lock n) options q = Inr (s, q') \<and> compiledData q' = compiledData qf \<and>
            (\<not> onlyJsonField options \<longrightarrow>
               s = wrapped options qf (Fragment (selectPieces options (compiledData qf))) \<and>
               selectPieces options (compiledData qf) ! 3 =
                 (case c_from (compiledData qf) of
                    None \<Rightarrow> EmbVal JNull
                  | Some f \<Rightarrow>
                      Emb (Fragment [Txt ''from '', Emb (fst f), Txt '' as '', Emb (snd f)])))))) \<and>
   (lockEverything (lock n) q = Inl e \<longrightarrow> build (lock n) options q = Inl e) \<and>
   (locks q ''from'' = None \<longrightarrow>
      thrown (from' lk Undefined al q) = Some NoFromTableSource \<and>
      thrown (from' lk Null al q) = Some NoFromTableSource \<and>
      thrown (from' lk (Given g) Null q) = Some NoFromAlias)"
proof (intro conjI impI)
  assume w: "wired q" and l: "lockEverything (lock n) q = Inr qf"
  note b = build_eq [OF w, of n options, unfolded l andThen_Inr]
  {
    assume "c_from (compiledData qf) = None \<and>
       (addNullCase options \<or>
        (asJson options \<or> asJsonAggregate options \<or> onlyJsonField options) \<and>
        c_select (compiledData qf) = [])"
    then show "build (lock n) options q = Inl (NoFromTableSupplied, qf)"
      unfolding b by (simp add: assembled_def needsAlias_def)
  }
  assume "\<not> (c_from (compiledData qf) = None \<and>
          (addNullCase options \<or>
           (asJson options \<or> asJsonAggregate options \<or> onlyJsonField options) \<and>
           c_select (compiledData qf) = []))"
  then have "\<not> (needsAlias options (compiledData qf) \<and> c_from (compiledData qf) = None)"
    by (auto simp: needsAlias_def)
  then show "\<exists>s q'. build (lock n) options q = Inr (s, q') \<and> compiledData q' = compiledData qf \<and>
            (\<not> onlyJsonField options \<longrightarrow>
               s = wrapped options qf (Fragment (selectPieces options (compiledData qf))) \<and>
               selectPieces options (compiledData qf) ! 3 =
                 (case c_from (compiledData qf) of
                    None \<Rightarrow> EmbVal JNull
                  | Some f \<Rightarrow>
                      Emb (Fragment [Txt ''from '', Emb (fst f), Txt '' as '', Emb (snd f)])))"
    unfolding b by (simp add: assembled_def selectPieces_from fromPiece_def)
next
  assume "lockEverything (lock n) q = Inl e"
  then show "build (lock n) options q = Inl e" by (rule build_throws_early)
next
  assume "locks q ''from'' = None"
  then show "thrown (from' lk Undefined al q) = Some NoFromTableSource"
    "thrown (from' lk Null al q) = Some NoFromTableSource"
    "thrown (from' lk (Given g) Null q) = Some NoFromAlias"
    by (auto simp: from'_def thrown_def throw_def Let_def split: jsarg.splits)
qed

lemma lockEverything_from_new:
  "\<exists>qa qb. from' (lock 2) (Given (Val src)) (Given al) (newQueryBuilder dev) = Inr qa \<and>
     lockEverything (lock 2) qa = Inr qb \<and> c_from (compiledData qb) = Some (src, al)"
  by (simp add: numeral_2_eq_2 from'_def new_defs run_defs callIfNecessary_def)

lemma lockEverything_generator_throws:
  "\<exists>qw qx. where' (GenAlias [] f) (newQueryBuilder dev) = Inr qw \<and>
     lockEverything (lock 3) qw = Inl (NoFromTableSupplied, qx)"
  by (simp add: numeral_3_eq_3 where'_def new_defs run_defs callIfNecessary_def getTableAlias_def
      throw_def)

theorem build_without_from_witness:
  "\<exists>q1 s q' qa qb s2 q2 qw qx.
     wired (newQueryBuilder False) \<and>
     lockEverything (lock 2) (newQueryBuilder False) = Inr q1 \<and>
     c_from (compiledData q1) = None \<and>
     build (lock 2) (defaultOptions\<lparr>asJson := True\<rparr>) (newQueryBuilder False) =
       Inl (NoFromTableSupplied, q1) \<and>
     build (lock 2) defaultOptions (newQueryBuilder False) = Inr (s, q') \<and>
     s = wrapped defaultOptions q1 (Fragment (selectPieces defaultOptions (compiledData q1))) \<and>
     selectPieces defaultOptions (compiledData q1) ! 3 = EmbVal JNull \<and>
     from' (lock 2) (Given (Val (Fragment [Txt ''users'']))) (Given (Identifier [AStr ''u'']))
       (newQueryBuilder False) = Inr qa \<and>
     wired qa \<and> lockEverything (lock 2) qa = Inr qb \<and>
     build (lock 2) (defaultOptions\<lparr>asJson := True\<rparr>) qa = Inr (s2, q2) \<and>
     selectPieces (defaultOptions\<lparr>asJson := True\<rparr>) (compiledData qb) ! 3 =
       Emb (Fragment [Txt ''from '', Emb (Fragment [Txt ''users'']), Txt '' as '',
              Emb (Identifier [AStr ''u''])]) \<and>
     where' (GenAlias [] (\<lambda>a. a)) (newQueryBuilder False) = Inr qw \<and>
     lockEverything (lock 3) qw = Inl (NoFromTableSupplied, qx) \<and>
     build (lock 3) defaultOptions qw = Inl (NoFromTableSupplied, qx) \<and>
     locks (newQueryBuilder False) ''from'' = None \<and>
     thrown (from' (lock 2) Undefined Undefined (newQueryBuilder False)) = Some NoFromTableSource"
proof -
  let ?new = "newQueryBuilder False"
  let ?json = "defaultOptions\<lparr>asJson := True\<rparr>"
  from lockEverything_new [of 0 False] obtain q1 where
    e: "lockEverything (lock 2) ?new = Inr q1" and c: "compiledData q1 = emptyCompiledData"
    by (auto simp: numeral_2_eq_2)
  have u: "locks ?new ''from'' = None" by (simp add: new_defs)
  have f: "c_from (compiledData q1) = None" by (simp add: c emptyCompiledData_def)
  have sel: "c_select (compiledData q1) = []" by (simp add: c emptyCompiledData_def)
  note t = build_without_from [where q = ?new and n = 2 and qf = q1 and lk = "lock 2"
      and al = Undefined and g = "Val (Fragment [])" and e = "(OutOfFuel, q1)"]
  have 1: "build (lock 2) ?json ?new = Inl (NoFromTableSupplied, q1)"
    by (rule t [where options = ?json, THEN conjunct1, rule_format, OF wired_new e,
          THEN conjunct1, rule_format])
      (simp add: f sel defaultOptions_def)
  have "\<exists>s q'. build (lock 2) defaultOptions ?new = Inr (s, q') \<and>
      compiledData q' = compiledData q1 \<and>
      (\<not> onlyJsonField defaultOptions \<longrightarrow>
         s = wrapped defaultOptions q1 (Fragment (selectPieces defaultOptions (compiledData q1))) \<and>
         selectPieces defaultOptions (compiledData q1) ! 3 =
           (case c_from (compiledData q1) of
              None \<Rightarrow> EmbVal JNull
            | Some f \<Rightarrow> Emb (Fragment [Txt ''from '', Emb (fst f), Txt '' as '', Emb (snd f)])))"
    by (rule t [where options = defaultOptions, THEN conjunct1, rule_format, OF wired_new e,
          THEN conjunct2, rule_format])
      (simp add: defaultOptions_def)
  then obtain s q' where 2: "build (lock 2) defaultOptions ?new = Inr (s, q')"
    and 3: "s = wrapped defaultOptions q1 (Fragment (selectPieces defaultOptions (compiledData q1)))"
    and 4: "selectPieces defaultOptions (compiledData q1) ! 3 = EmbVal JNull"
    by (auto simp: defaultOptions_def f)
  from lockEverything_from_new [of "Fragment [Txt ''users'']" "Identifier [AStr ''u'']" False]
  obtain qa qb where
    a: "from' (lock 2) (Given (Val (Fragment [Txt ''users'']))) (Given (Identifier [AStr ''u'']))
       ?new = Inr qa"
    and eb: "lockEverything (lock 2) qa = Inr qb"
    and cb: "c_from (compiledData qb) = Some (Fragment [Txt ''users''], Identifier [AStr ''u''])"
    by blast
  have "staysWired ?new qa"
    by (rule from_keeps [OF carries_staysWired a])
  with wired_new have wa: "wired qa" by (simp add: staysWired_def)
  have "\<exists>s q'. build (lock 2) ?json qa = Inr (s, q') \<and>
      compiledData q' = compiledData qb \<and>
      (\<not> onlyJsonField ?json \<longrightarrow>
         s = wrapped ?json qb (Fragment (selectPieces ?json (compiledData qb))) \<and>
         selectPieces ?json (compiledData qb) ! 3 =
           (case c_from (compiledData qb) of
              None \<Rightarrow> EmbVal JNull
            | Some f \<Rightarrow> Emb (Fragment [Txt ''from '', Emb (fst f), Txt '' as '', Emb (snd f)])))"
    by (rule build_without_from [where q = qa and n = 2 and qf = qb and lk = "lock 2"
          and al = Undefined and g = "Val (Fragment [])" and e = "(OutOfFuel, q1)"
          and options = ?json, THEN conjunct1, rule_format, OF wa eb, THEN conjunct2, rule_format])
      (simp add: cb)
  then obtain s2 q2 where 5: "build (lock 2) ?json qa = Inr (s2, q2)"
    and 6: "selectPieces ?json (compiledData qb) ! 3 =
       Emb (Fragment [Txt ''from '', Emb (Fragment [Txt ''users'']), Txt '' as '',
              Emb (Identifier [AStr ''u''])])"
    by (auto simp: defaultOptions_def cb)
  from lockEverything_generator_throws [of "\<lambda>a. a" False] obtain qw qx where
    7: "where' (GenAlias [] (\<lambda>a. a)) ?new = Inr qw"
    and 8: "lockEverything (lock 3) qw = Inl (NoFromTableSupplied, qx)"
    by blast
  have 9: "build (lock 3) defaultOptions qw = Inl (NoFromTableSupplied, qx)"
    by (rule build_without_from [where q = qw and n = 3 and qf = q1 and lk = "lock 2"
          and al = Undefined and g = "Val (Fragment [])" and e = "(NoFromTableSupplied, qx)"
          and options = defaultOptions, THEN conjunct2, THEN conjunct1, rule_format, OF 8])
  note 10 = t [where options = defaultOptions, THEN conjunct2, THEN conjunct2, rule_format, OF u,
      THEN conjunct1]
  show ?thesis
    by (rule exI [of _ q1], rule exI [of _ s], rule exI [of _ q'], rule exI [of _ qa],
        rule exI [of _ qb], rule exI [of _ s2], rule exI [of _ q2], rule exI [of _ qw],
        rule exI [of _ qx], intro conjI)
      (rule wired_new e f 1 2 3 4 a wa eb 5 6 7 8 9 u 10)+
qed

text \<open>
  On a new builder, with no call of \<open>from\<close>, \<open>build()\<close> returns a select statement
  whose FROM hole holds \<open>null\<close>.
\<close>

theorem build_without_from_returns:
  "(case build (lock 2) defaultOptions (newQueryBuilder False) of
      Inl _ \<Rightarrow> False
    | Inr (s, q') \<Rightarrow>
        d_from (data q') = None \<and> c_from (compiledData q') = None \<and>
        s = Fragment [Txt ''\<newline>      select '', Emb (Join [] '', ''),
              Txt ''\<newline>      '', EmbVal JNull,
              Txt ''\<newline>      '', EmbVal (JNum (Fin 0)),
              Txt ''\<newline>      where '',
              Emb (Fragment [Txt ''('',
                Emb (Join [Literal (JBool True), Literal (JBool True)] '') and (''), Txt '')'']),
              Txt ''\<newline>      '', EmbVal (JStr []),
              Txt ''\<newline>      '', EmbVal (JBool False),
              Txt ''\<newline>      '', EmbVal JNull,
              Txt ''\<newline>    ''])"
  by (simp add: numeral_2_eq_2 new_defs run_defs build_defs)

subsection \<open>Events of one phase\<close>


lemma later_prefix: "later q q' \<Longrightarrow> prefix (history q) (history q')"
  by (simp add: later_def)


lemma newEvents_from: "history q0 = history q \<Longrightarrow> newEvents q0 q' = newEvents q q'"
  by (simp add: newEvents_def)








lemma about_Ran [simp]: "filter (about t) (map (Ran t) xs) = map (Ran t) xs"
  by (induction xs) simp_all














subsection \<open>The limit and the offset are never negative\<close>




lemma clamped_other [simp]:
  "clamped (q\<lparr>symbols := k\<rparr>) = clamped q"
  "clamped (q\<lparr>history := h\<rparr>) = clamped q"
  "clamped (q\<lparr>locks := l\<rparr>) = clamped q"
  "clamped (q\<lparr>finalized := b\<rparr>) = clamped q"
  "clamped (setLock t q) = clamped q"
  "clamped (pushBeforeLock field fn q) = clamped q"
  by (simp_all add: clamped_def setLock_def pushBeforeLock_def)
















subsection \<open>limit and offset\<close>










end
